theory Spec2Isabelle
  imports Main "HOL-Library.Sublist"
begin

section \<open>Strings\<close>

text \<open>
  JavaScript strings are modelled as \<open>string\<close>, one \<open>char\<close> per code unit; only code units
  below 256 are representable.
\<close>

text \<open>The characters that \<^verbatim>\<open>trim\<close> removes and \<^verbatim>\<open>\s\<close> matches; \<^verbatim>\<open>.\<close> matches all but line terminators.\<close>

definition isWhitespace :: "char \<Rightarrow> bool" where
  "isWhitespace c \<longleftrightarrow> c \<in> set [CHR 0x09, CHR 0x0A, CHR 0x0B, CHR 0x0C, CHR 0x0D, CHR 0x20, CHR 0xA0]"


definition trimLeft :: "string \<Rightarrow> string" where
  "trimLeft s = dropWhile isWhitespace s"

definition trimRight :: "string \<Rightarrow> string" where
  "trimRight s = rev (dropWhile isWhitespace (rev s))"



text \<open>\<^verbatim>\<open>s.replace(/c/g, '\\c')\<close>: a backslash is put before every occurrence of \<open>c\<close>.\<close>

fun escapeChar :: "char \<Rightarrow> string \<Rightarrow> string" where
  "escapeChar c [] = []"
| "escapeChar c (x # xs) = (if x = c then CHR 0x5C # x # escapeChar c xs else x # escapeChar c xs)"

section \<open>Document tree\<close>

text \<open>
  The exceptions of the code, as values: the \<^verbatim>\<open>TypeError\<close> of \<^verbatim>\<open>canConvert\<close> for a filter of
  an unknown kind, the errors of \<^verbatim>\<open>getChildText\<close> (unsupported node type),
  \<^verbatim>\<open>extractColumns\<close> (text in a table row) and \<^verbatim>\<open>extractRows\<close> (alignment of column \<open>i\<close>
  not consistent), the \<^verbatim>\<open>RangeError\<close> of \<^verbatim>\<open>String.prototype.repeat\<close> for a negative count, the
  \<^verbatim>\<open>TypeError\<close> of reading \<^verbatim>\<open>rows[0]\<close> of a table without rows, the \<^verbatim>\<open>TypeError\<close> of
  \<^verbatim>\<open>text.toString()\<close> in \<^verbatim>\<open>pad\<close> for a text that is \<^verbatim>\<open>undefined\<close>, and the error of
  \<^verbatim>\<open>assertIsConverterNode\<close> for a node without converter.
\<close>

datatype error =
    FilterTypeError
  | UnsupportedNodeType
  | CannotHandleInTableRow
  | AlignmentNotConsistent nat
  | InvalidCountValue
  | UndefinedRow
  | UndefinedToString
  | ExpectedConverterNode

text \<open>
  The filter functions of the rule table are values compared by identity
  (\<^verbatim>\<open>_converter.filter === fallback\<close>), so each one gets a name; \<open>applyFilterFn\<close> below
  gives the body. \<open>FOther\<close> stands for a filter that is neither a string, an array nor a
  function.
\<close>

datatype filterFn = ParentIsFallback | PlainImg | Checkbox | HighlightDiv | fallback

datatype ConverterFilter = FString string | FArray "string list" | FFunction filterFn | FOther

datatype producer =
    PFallbackChild | PParagraph | PCell | PTableSection | PStrike | PEmphasis | PStrong
  | PBreak | PLink | PImage | PCheckbox | PTable | PPre | PCode | PHighlightDiv | PHeading
  | PRule | PBlockquote | PListItem | PList | PComment | PFallback

text \<open>
  A rule of the table (interface \<^verbatim>\<open>Converter\<close>). The field \<open>producer\<close> names the
  \<^verbatim>\<open>replacement\<close> function of the rule; the functions themselves follow further down.
\<close>

record Converter =
  cfilter :: ConverterFilter
  surroundingBlankLines :: "bool option"
  trailingWhitespace :: "string option"
  producer :: producer

text \<open>The fields \<^verbatim>\<open>_converter\<close>, \<^verbatim>\<open>_replacement\<close> and \<^verbatim>\<open>_whitespace\<close> of a \<^verbatim>\<open>ConverterNode\<close>.\<close>

record annotation =
  n_converter :: Converter
  n_replacement :: string
  n_whitespace :: "(string \<times> string) option"

text \<open>
  What the code reads of an element: its \<^verbatim>\<open>type\<close>, \<^verbatim>\<open>tagName\<close> and attribute list, the
  properties \<^verbatim>\<open>checked\<close> and \<^verbatim>\<open>className\<close> (absent on the nodes of the parser), and the
  annotation, absent until the node has been given a converter.
\<close>

record element =
  ntype :: string
  tagName :: string
  attribs :: "(string \<times> string) list"
  checked :: bool
  className :: "string option"
  annot :: "annotation option"

text \<open>
  The nodes of the tree adapter: elements and the document fragment have children, text
  and comment nodes carry their data. The links to the parent and to the siblings are not
  part of a node; a function that follows them takes the parent as an argument.
\<close>

datatype node =
    Element element "node list"
  | TextNode string
  | CommentNode string
  | DocumentFragment "node list"


fun elementTag :: "node \<Rightarrow> string option" where
  "elementTag (Element e cs) = Some (tagName e)"
| "elementTag n = None"

fun isElement :: "node \<Rightarrow> bool" where
  "isElement (Element e cs) = True"
| "isElement n = False"

fun isTextNode :: "node \<Rightarrow> bool" where
  "isTextNode (TextNode t) = True"
| "isTextNode n = False"

fun isParentNode :: "node \<Rightarrow> bool" where
  "isParentNode (Element e cs) = True"
| "isParentNode (DocumentFragment cs) = True"
| "isParentNode n = False"

fun childNodes :: "node \<Rightarrow> node list" where
  "childNodes (Element e cs) = cs"
| "childNodes (DocumentFragment cs) = cs"
| "childNodes n = []"

fun nodeType :: "node \<Rightarrow> string" where
  "nodeType (Element e cs) = ntype e"
| "nodeType (TextNode t) = ''text''"
| "nodeType (CommentNode t) = ''comment''"
| "nodeType (DocumentFragment cs) = ''root''"

fun annotationOf :: "node \<Rightarrow> annotation option" where
  "annotationOf (Element e cs) = annot e"
| "annotationOf n = None"

definition isConverterNode :: "node \<Rightarrow> bool" where
  "isConverterNode n \<longleftrightarrow> annotationOf n \<noteq> None"

fun getAttrList :: "node \<Rightarrow> (string \<times> string) list" where
  "getAttrList (Element e cs) = attribs e"
| "getAttrList n = []"

text \<open>\<^verbatim>\<open>getAttribute\<close> (src/utils.ts): an attribute with an empty value reads as \<^verbatim>\<open>null\<close>.\<close>

definition getAttribute :: "node \<Rightarrow> string \<Rightarrow> string option" where
  "getAttribute n attribute =
     (case find (\<lambda>attr. fst attr = attribute) (getAttrList n) of
        None \<Rightarrow> None
      | Some attr \<Rightarrow> if snd attr = [] then None else Some (snd attr))"

definition noExtraAttributes :: "node \<Rightarrow> string list \<Rightarrow> bool" where
  "noExtraAttributes n attributes \<longleftrightarrow>
     find (\<lambda>attr. fst attr \<notin> set attributes) (getAttrList n) = None"

section \<open>Rule table (the converters)\<close>

text \<open>
  \<^verbatim>\<open>CODE_HIGHLIGHT_REGEX.test(s)\<close> for
  \<^verbatim>\<open>/(?:highlight highlight|lang(?:uage)?)-(\S+)/\<close>: somewhere in \<open>s\<close> one of the three
  prefixes is followed by a character that is not whitespace.
\<close>

definition codeHighlightTest :: "string \<Rightarrow> bool" where
  "codeHighlightTest s \<longleftrightarrow>
     list_ex (\<lambda>t. list_ex (\<lambda>p. prefix p t \<and> (case drop (length p) t of [] \<Rightarrow> False | c # r \<Rightarrow> \<not> isWhitespace c))
                    [''highlight highlight-'', ''lang-'', ''language-''])
             (suffixes s)"


text \<open>
  The filter functions of the table, in the order of their rules: the parent carries a
  converter whose filter is \<^verbatim>\<open>fallback\<close>; an \<^verbatim>\<open>img\<close> element with no attribute besides
  \<^verbatim>\<open>alt\<close>, \<^verbatim>\<open>src\<close> and \<^verbatim>\<open>title\<close>; a node of type \<^verbatim>\<open>checkbox\<close> whose parent is an \<^verbatim>\<open>li\<close>
  element; a \<^verbatim>\<open>div\<close> element whose \<^verbatim>\<open>className\<close> passes the highlight test (a missing
  property is tested as the string \<^verbatim>\<open>undefined\<close>); and \<^verbatim>\<open>fallback\<close>, which is always true.
\<close>

fun applyFilterFn :: "filterFn \<Rightarrow> node option \<Rightarrow> node \<Rightarrow> bool" where
  "applyFilterFn ParentIsFallback parentNode n =
     (case parentNode of
        None \<Rightarrow> False
      | Some p \<Rightarrow> (case annotationOf p of
                     None \<Rightarrow> False
                   | Some a \<Rightarrow> cfilter (n_converter a) = FFunction fallback))"
| "applyFilterFn PlainImg parentNode n =
     (elementTag n = Some ''img'' \<and> noExtraAttributes n [''alt'', ''src'', ''title''])"
| "applyFilterFn Checkbox parentNode n =
     (nodeType n = ''checkbox''
      \<and> (case parentNode of None \<Rightarrow> False | Some p \<Rightarrow> elementTag p = Some ''li''))"
| "applyFilterFn HighlightDiv parentNode n =
     (case n of
        Element e cs \<Rightarrow> tagName e = ''div''
           \<and> codeHighlightTest (case className e of None \<Rightarrow> ''undefined'' | Some c \<Rightarrow> c)
      | _ \<Rightarrow> False)"
| "applyFilterFn fallback parentNode n = True"

text \<open>The array \<^verbatim>\<open>Converters\<close>, in declaration order.\<close>

definition Converters :: "Converter list" where
  "Converters =
   [\<lparr>cfilter = FFunction ParentIsFallback, surroundingBlankLines = Some False,
     trailingWhitespace = None, producer = PFallbackChild\<rparr>,
    \<lparr>cfilter = FString ''p'', surroundingBlankLines = Some True,
     trailingWhitespace = None, producer = PParagraph\<rparr>,
    \<lparr>cfilter = FArray [''td'', ''th''], surroundingBlankLines = Some False,
     trailingWhitespace = None, producer = PCell\<rparr>,
    \<lparr>cfilter = FArray [''tbody'', ''thead'', ''tr''], surroundingBlankLines = Some False,
     trailingWhitespace = None, producer = PTableSection\<rparr>,
    \<lparr>cfilter = FArray [''del'', ''s'', ''strike''], surroundingBlankLines = Some False,
     trailingWhitespace = None, producer = PStrike\<rparr>,
    \<lparr>cfilter = FArray [''em'', ''i''], surroundingBlankLines = Some False,
     trailingWhitespace = None, producer = PEmphasis\<rparr>,
    \<lparr>cfilter = FArray [''strong'', ''b''], surroundingBlankLines = Some False,
     trailingWhitespace = None, producer = PStrong\<rparr>,
    \<lparr>cfilter = FString ''br'', surroundingBlankLines = Some False,
     trailingWhitespace = Some [CHR 0x0A], producer = PBreak\<rparr>,
    \<lparr>cfilter = FString ''a'', surroundingBlankLines = Some False,
     trailingWhitespace = None, producer = PLink\<rparr>,
    \<lparr>cfilter = FFunction PlainImg, surroundingBlankLines = Some False,
     trailingWhitespace = None, producer = PImage\<rparr>,
    \<lparr>cfilter = FFunction Checkbox, surroundingBlankLines = Some False,
     trailingWhitespace = None, producer = PCheckbox\<rparr>,
    \<lparr>cfilter = FString ''table'', surroundingBlankLines = Some True,
     trailingWhitespace = None, producer = PTable\<rparr>,
    \<lparr>cfilter = FString ''pre'', surroundingBlankLines = Some True,
     trailingWhitespace = None, producer = PPre\<rparr>,
    \<lparr>cfilter = FString ''code'', surroundingBlankLines = Some False,
     trailingWhitespace = None, producer = PCode\<rparr>,
    \<lparr>cfilter = FFunction HighlightDiv, surroundingBlankLines = Some True,
     trailingWhitespace = None, producer = PHighlightDiv\<rparr>,
    \<lparr>cfilter = FArray [''h1'', ''h2'', ''h3'', ''h4'', ''h5'', ''h6''],
     surroundingBlankLines = Some True, trailingWhitespace = None, producer = PHeading\<rparr>,
    \<lparr>cfilter = FString ''hr'', surroundingBlankLines = Some True,
     trailingWhitespace = None, producer = PRule\<rparr>,
    \<lparr>cfilter = FString ''blockquote'', surroundingBlankLines = Some True,
     trailingWhitespace = None, producer = PBlockquote\<rparr>,
    \<lparr>cfilter = FString ''li'', surroundingBlankLines = Some False,
     trailingWhitespace = Some [CHR 0x0A], producer = PListItem\<rparr>,
    \<lparr>cfilter = FArray [''ul'', ''ol''], surroundingBlankLines = Some True,
     trailingWhitespace = None, producer = PList\<rparr>,
    \<lparr>cfilter = FString ''_comment'', surroundingBlankLines = None,
     trailingWhitespace = None, producer = PComment\<rparr>,
    \<lparr>cfilter = FFunction fallback, surroundingBlankLines = Some True,
     trailingWhitespace = None, producer = PFallback\<rparr>]"

text \<open>\<^verbatim>\<open>canConvert\<close> (src/index.ts); \<^verbatim>\<open>node.parentNode\<close> is passed next to the node.\<close>

fun canConvert :: "node option \<Rightarrow> node \<Rightarrow> ConverterFilter \<Rightarrow> error + bool" where
  "canConvert parentNode n (FString f) = Inr (elementTag n = Some f)"
| "canConvert parentNode n (FArray fs) =
     Inr (case elementTag n of None \<Rightarrow> False | Some t \<Rightarrow> t \<in> set fs)"
| "canConvert parentNode n (FFunction f) = Inr (applyFilterFn f parentNode n)"
| "canConvert parentNode n FOther = Inl FilterTypeError"

text \<open>\<^verbatim>\<open>Array.prototype.find\<close> with a predicate that may throw.\<close>

fun findIn :: "Converter list \<Rightarrow> node option \<Rightarrow> node \<Rightarrow> error + Converter option" where
  "findIn [] parentNode n = Inr None"
| "findIn (c # cs) parentNode n =
     (case canConvert parentNode n (cfilter c) of
        Inl e \<Rightarrow> Inl e
      | Inr True \<Rightarrow> Inr (Some c)
      | Inr False \<Rightarrow> findIn cs parentNode n)"

text \<open>\<^verbatim>\<open>findConverter\<close> (src/index.ts).\<close>

definition findConverter :: "node option \<Rightarrow> node \<Rightarrow> error + Converter option" where
  "findConverter parentNode n = findIn Converters parentNode n"

subsection \<open>Text producers\<close>

text \<open>
  Every occurrence of \<open>c\<close> in the string comes right after a backslash; \<open>prev\<close> is the
  character before the string.
\<close>

fun escapedFrom :: "char \<Rightarrow> char \<Rightarrow> string \<Rightarrow> bool" where
  "escapedFrom c prev [] = True"
| "escapedFrom c prev (x # xs) = ((x \<noteq> c \<or> prev = CHR 0x5C) \<and> escapedFrom c x xs)"

text \<open>Reading an escaped string back: a backslash followed by \<open>c\<close> stands for \<open>c\<close>.\<close>

fun unescapeChar :: "char \<Rightarrow> string \<Rightarrow> string" where
  "unescapeChar c (b # x # xs) =
     (if b = CHR 0x5C \<and> x = c then x # unescapeChar c xs else b # unescapeChar c (x # xs))"
| "unescapeChar c s = s"

text \<open>The producers of the \<^verbatim>\<open>['em', 'i']\<close> and \<^verbatim>\<open>['strong', 'b']\<close> rules.\<close>

definition replacement_em :: "string \<Rightarrow> string" where
  "replacement_em content =
     (if CHR ''_'' \<in> set content
      then ''*'' @ escapeChar CHR ''*'' content @ ''*''
      else ''_'' @ escapeChar CHR ''_'' content @ ''_'')"

definition replacement_strong :: "string \<Rightarrow> string" where
  "replacement_strong content = ''**'' @ escapeChar CHR ''*'' content @ ''**''"








text \<open>Substring test, for stating what a string does not contain.\<close>

definition containsSub :: "string \<Rightarrow> string \<Rightarrow> bool" where
  "containsSub sub s \<longleftrightarrow> list_ex (prefix sub) (suffixes s)"

section \<open>Heading normalizer (src/index.ts, fixHeaders)\<close>

text \<open>
  \<^verbatim>\<open>fixHeaders\<close> collects the top-level header elements of the document and rewrites
  their \<^verbatim>\<open>tagName\<close> in place. The only data it reads and writes are those tag names,
  so the model works on the list of tag names of \<^verbatim>\<open>topLevelHeaders\<close> and returns the
  rewritten list. The \<^verbatim>\<open>while\<close> loop has no structural bound, so it is a partial
  function into \<open>option\<close>: \<open>None\<close> means that the loop never returns.
\<close>

text \<open>\<^verbatim>\<open>parseInt(c, 10)\<close> for a one-character string; \<open>None\<close> is \<^verbatim>\<open>NaN\<close>.\<close>

definition parseDigit :: "char \<Rightarrow> int option" where
  "parseDigit c = map_of
     [(CHR ''0'', 0), (CHR ''1'', 1), (CHR ''2'', 2), (CHR ''3'', 3), (CHR ''4'', 4),
      (CHR ''5'', 5), (CHR ''6'', 6), (CHR ''7'', 7), (CHR ''8'', 8), (CHR ''9'', 9)] c"

text \<open>\<^verbatim>\<open>parseInt(tagName.charAt(1), 10)\<close>; \<^verbatim>\<open>charAt(1)\<close> of a shorter string is empty.\<close>

fun headerDepth :: "string \<Rightarrow> int option" where
  "headerDepth (a # c # rest) = parseDigit c"
| "headerDepth t = None"

text \<open>Decimal rendering of an integer, as the template string \<^verbatim>\<open>`h${n}`\<close> does.\<close>

fun showNat :: "nat \<Rightarrow> string" where
  "showNat n = (if n < 10 then [''0123456789'' ! n]
                else showNat (n div 10) @ [''0123456789'' ! (n mod 10)])"

declare showNat.simps [simp del]

definition showInt :: "int \<Rightarrow> string" where
  "showInt k = (if k < 0 then CHR ''-'' # showNat (nat (- k)) else showNat (nat k))"

text \<open>
  The inner \<^verbatim>\<open>for (let e = i; ...)\<close> loop on the headers from position \<open>i\<close> on: every
  header of the run whose depth is at least the offending depth is moved by \<open>gap\<close>; the
  first other header (or one whose depth is \<^verbatim>\<open>NaN\<close>) ends the run.
\<close>

fun shiftRun :: "int \<Rightarrow> int \<Rightarrow> string list \<Rightarrow> string list" where
  "shiftRun d gap [] = []"
| "shiftRun d gap (t # ts) =
     (case headerDepth t of
        None \<Rightarrow> t # ts
      | Some childHeaderDepth \<Rightarrow>
          if childHeaderDepth \<ge> d
          then (''h'' @ showInt (childHeaderDepth - gap)) # shiftRun d gap ts
          else t # ts)"

text \<open>
  The \<^verbatim>\<open>while (i < topLevelHeaders.length)\<close> loop. With a \<^verbatim>\<open>NaN\<close> depth both
  comparisons of the guard are false, \<open>gap\<close> is \<^verbatim>\<open>NaN\<close>, the inner loop breaks at once
  and \<^verbatim>\<open>continue\<close> re-enters the loop in the same state.
\<close>

partial_function (option) fixLoop :: "int \<Rightarrow> nat \<Rightarrow> int \<Rightarrow> string list \<Rightarrow> string list option" where
  "fixLoop rootDepth i lastHeaderDepth hs =
     (if i < length hs then
        (case headerDepth (hs ! i) of
           None \<Rightarrow> fixLoop rootDepth i lastHeaderDepth hs
         | Some d \<Rightarrow>
             if rootDepth \<le> d \<and> d \<le> lastHeaderDepth + 1
             then fixLoop rootDepth (i + 1) d hs
             else
               let gap = (if d \<le> rootDepth then d - rootDepth else d - (lastHeaderDepth + 1))
               in fixLoop rootDepth i lastHeaderDepth (take i hs @ shiftRun d gap (drop i hs)))
      else Some hs)"

declare fixLoop.simps [code]

text \<open>
  The initial \<^verbatim>\<open>lastHeaderDepth\<close>: \<open>0\<close>, or
  \<^verbatim>\<open>parseInt(topLevelHeaders[0].tagName.charAt(1), 10) - 1 || 0\<close>.
\<close>

definition initialDepth :: "bool \<Rightarrow> string \<Rightarrow> int" where
  "initialDepth ensureFirstHeaderIsH1 firstTag =
     (if ensureFirstHeaderIsH1 then 0
      else (case headerDepth firstTag of
              None \<Rightarrow> 0
            | Some d \<Rightarrow> if d - 1 = 0 then 0 else d - 1))"

text \<open>\<^verbatim>\<open>fixHeaders\<close>: nothing to do without headers, otherwise the loop from the first one.\<close>

definition fixHeaders :: "bool \<Rightarrow> string list \<Rightarrow> string list option" where
  "fixHeaders ensureFirstHeaderIsH1 topLevelHeaders =
     (case topLevelHeaders of
        [] \<Rightarrow> Some []
      | firstHeader # rest \<Rightarrow>
          let lastHeaderDepth = initialDepth ensureFirstHeaderIsH1 firstHeader;
              rootDepth = lastHeaderDepth + 1
          in fixLoop rootDepth 0 lastHeaderDepth topLevelHeaders)"

text \<open>
  The test \<^verbatim>\<open>/h[0-6]/.test(child.tagName)\<close> that selects the top-level headers: the
  expression is not anchored, so it looks for an \<open>h\<close> followed by a digit up to 6 anywhere in
  the tag name.
\<close>

fun isHeaderTag :: "string \<Rightarrow> bool" where
  "isHeaderTag (a # b # rest) = ((a = CHR ''h'' \<and> b \<in> set ''0123456'') \<or> isHeaderTag (b # rest))"
| "isHeaderTag t = False"

text \<open>The tag names of \<^verbatim>\<open>topLevelHeaders\<close>, collected from the children of the document.\<close>

definition topLevelHeadersOf :: "node \<Rightarrow> string list" where
  "topLevelHeadersOf document =
     (if isParentNode document
      then List.map_filter (\<lambda>child. case elementTag child of
                                        None \<Rightarrow> None
                                      | Some t \<Rightarrow> if isHeaderTag t then Some t else None)
             (childNodes document)
      else [])"

text \<open>
  The rule every header has to follow when the loop moves past it: its depth lies between
  the root depth and one more than the depth of the header accepted before it.
\<close>

fun followsRules :: "int \<Rightarrow> int \<Rightarrow> string list \<Rightarrow> bool" where
  "followsRules rootDepth lastHeaderDepth [] = True"
| "followsRules rootDepth lastHeaderDepth (t # ts) =
     (case headerDepth t of
        None \<Rightarrow> False
      | Some d \<Rightarrow> rootDepth \<le> d \<and> d \<le> lastHeaderDepth + 1 \<and> followsRules rootDepth d ts)"

section \<open>Content assembly (src/index.ts, getContent)\<close>

text \<open>
  \<^verbatim>\<open>getChildText\<close>. \<^verbatim>\<open>cleanText\<close> depends on the tags around the text node and on the
  entity decoder of a library; it is a parameter, applied to the data of the text node.
\<close>

definition getChildText :: "(string \<Rightarrow> string) \<Rightarrow> node \<Rightarrow> error + string" where
  "getChildText cleanText child =
     (case annotationOf child of
        Some a \<Rightarrow> Inr (n_replacement a)
      | None \<Rightarrow> (case child of TextNode t \<Rightarrow> Inr (cleanText t) | _ \<Rightarrow> Inl UnsupportedNodeType))"

text \<open>\<^verbatim>\<open>isConverterNode(n) && n._whitespace?.leading || ''\<close>, and the same for trailing.\<close>

definition leadingOf :: "node \<Rightarrow> string" where
  "leadingOf n = (case annotationOf n of
                    None \<Rightarrow> []
                  | Some a \<Rightarrow> (case n_whitespace a of None \<Rightarrow> [] | Some w \<Rightarrow> fst w))"

definition trailingOf :: "node \<Rightarrow> string" where
  "trailingOf n = (case annotationOf n of
                     None \<Rightarrow> []
                   | Some a \<Rightarrow> (case n_whitespace a of None \<Rightarrow> [] | Some w \<Rightarrow> snd w))"

text \<open>
  \<^verbatim>\<open>s.replace(/\n{3,}/, '\n\n')\<close>: the regular expression has no \<^verbatim>\<open>g\<close> flag, so only the
  leftmost run of three or more newlines is replaced.
\<close>

fun collapseNewlines :: "string \<Rightarrow> string" where
  "collapseNewlines [] = []"
| "collapseNewlines (c # cs) =
     (if prefix [CHR 0x0A, CHR 0x0A, CHR 0x0A] (c # cs)
      then [CHR 0x0A, CHR 0x0A] @ dropWhile (\<lambda>x. x = CHR 0x0A) cs
      else c # collapseNewlines cs)"

text \<open>\<^verbatim>\<open>isElement(n) && n.tagName === 'br'\<close>.\<close>

definition isBr :: "node \<Rightarrow> bool" where
  "isBr n \<longleftrightarrow> elementTag n = Some ''br''"

text \<open>The text put between the previous sibling and the child.\<close>

definition separator :: "node \<Rightarrow> node \<Rightarrow> string" where
  "separator previousSibling child =
     collapseNewlines (leadingOf child @ trailingOf previousSibling)"

text \<open>One round of the \<^verbatim>\<open>forEach\<close> over the children; the state is \<open>(content, previousSibling)\<close>.\<close>

definition getContentStep ::
  "(string \<Rightarrow> string) \<Rightarrow> string \<times> node option \<Rightarrow> node \<Rightarrow> error + string \<times> node option" where
  "getContentStep cleanText st child =
     (case getChildText cleanText child of
        Inl e \<Rightarrow> Inl e
      | Inr childText \<Rightarrow>
          let content = (if isBr child then trimRight (fst st) else fst st);
              childText = (if (case snd st of None \<Rightarrow> False | Some p \<Rightarrow> isBr p)
                           then trimLeft childText else childText);
              content = (case snd st of
                           None \<Rightarrow> content
                         | Some p \<Rightarrow> content @ separator p child)
          in Inr (content @ childText, Some child))"

fun getContentLoop ::
  "(string \<Rightarrow> string) \<Rightarrow> string \<times> node option \<Rightarrow> node list \<Rightarrow> error + string \<times> node option" where
  "getContentLoop cleanText st [] = Inr st"
| "getContentLoop cleanText st (child # cs) =
     (case getContentStep cleanText st child of
        Inl e \<Rightarrow> Inl e
      | Inr st' \<Rightarrow> getContentLoop cleanText st' cs)"

text \<open>
  \<^verbatim>\<open>getContent\<close>: the data of a text node, the assembled children of a parent node, and
  the empty string for any other node.
\<close>

definition getContent :: "(string \<Rightarrow> string) \<Rightarrow> node \<Rightarrow> error + string" where
  "getContent cleanText n =
     (case n of
        TextNode t \<Rightarrow> Inr t
      | _ \<Rightarrow> if isParentNode n
             then (case getContentLoop cleanText ([], None) (childNodes n) of
                     Inl e \<Rightarrow> Inl e
                   | Inr st \<Rightarrow> Inr (fst st))
             else Inr [])"

text \<open>
  The content of a list of siblings written out: the text of each child, with the
  separator before every child but the first.
\<close>

fun assembled :: "node option \<Rightarrow> (node \<times> string) list \<Rightarrow> string" where
  "assembled previousSibling [] = []"
| "assembled previousSibling (ct # rest) =
     (case previousSibling of None \<Rightarrow> [] | Some p \<Rightarrow> separator p (fst ct))
     @ snd ct @ assembled (Some (fst ct)) rest"

subsection \<open>Whitespace of a node (src/index.ts, process)\<close>

text \<open>
  The collapse in the wording of the specification, for comparison with
  \<open>collapseNewlines\<close>: every run of three or more newlines becomes two newlines.
\<close>

function collapseEveryRun_spec :: "string \<Rightarrow> string" where
  "collapseEveryRun_spec [] = []"
| "collapseEveryRun_spec (c # cs) =
     (if prefix [CHR 0x0A, CHR 0x0A, CHR 0x0A] (c # cs)
      then [CHR 0x0A, CHR 0x0A] @ collapseEveryRun_spec (dropWhile (\<lambda>x. x = CHR 0x0A) cs)
      else c # collapseEveryRun_spec cs)"
  by pat_completeness auto
termination
  by (relation "measure length") (auto simp: less_Suc_eq_le length_dropWhile_le)

text \<open>
  \<^verbatim>\<open>/^\s/.test(s)\<close> and \<^verbatim>\<open>/\s$/.test(s)\<close>.
\<close>

definition startsWithWhitespace :: "string \<Rightarrow> bool" where
  "startsWithWhitespace s = (case s of [] \<Rightarrow> False | c # cs \<Rightarrow> isWhitespace c)"

definition endsWithWhitespace :: "string \<Rightarrow> bool" where
  "endsWithWhitespace s = (s \<noteq> [] \<and> isWhitespace (last s))"

text \<open>
  \<^verbatim>\<open>isFlankedByWhitespace\<close>; the sibling on the side asked for is passed in (\<open>None\<close> when
  there is none). \<^verbatim>\<open>isBlock\<close> reads the table of block tags, which is not among the
  sources, and is a parameter.
\<close>

definition isFlankedByWhitespace ::
  "(node \<Rightarrow> bool) \<Rightarrow> (string \<Rightarrow> string) \<Rightarrow> bool \<Rightarrow> node option \<Rightarrow> error + bool" where
  "isFlankedByWhitespace isBlock cleanText left sibling =
     (case sibling of
        None \<Rightarrow> Inr False
      | Some s \<Rightarrow>
          if \<not> isBlock s
          then (case getContent cleanText s of
                  Inl e \<Rightarrow> Inl e
                | Inr content \<Rightarrow>
                    Inr (if left then endsWithWhitespace content else startsWithWhitespace content))
          else Inr False)"

text \<open>
  The first part of \<^verbatim>\<open>flankingWhitespace\<close>: whether \<^verbatim>\<open>leading\<close> and \<^verbatim>\<open>trailing\<close> are set
  to a space, that is \<^verbatim>\<open>hasLeading && !isFlankedByWhitespace('left', node)\<close> and
  \<^verbatim>\<open>hasTrailing && !isFlankedByWhitespace('right', node)\<close>. The siblings of the node are
  passed in.
\<close>

definition flankingSpaces ::
  "(node \<Rightarrow> bool) \<Rightarrow> (string \<Rightarrow> string) \<Rightarrow> node option \<Rightarrow> node option \<Rightarrow> node
     \<Rightarrow> error + bool \<times> bool" where
  "flankingSpaces isBlock cleanText previousSibling nextSibling n =
     (if \<not> isBlock n
      then (case getContent cleanText n of
              Inl e \<Rightarrow> Inl e
            | Inr content \<Rightarrow>
                (case (if startsWithWhitespace content
                       then (case isFlankedByWhitespace isBlock cleanText True previousSibling of
                               Inl e \<Rightarrow> Inl e
                             | Inr flanked \<Rightarrow> Inr (\<not> flanked))
                       else Inr False) of
                   Inl e \<Rightarrow> Inl e
                 | Inr leadingSpace \<Rightarrow>
                     (case (if endsWithWhitespace content
                            then (case isFlankedByWhitespace isBlock cleanText False nextSibling of
                                    Inl e \<Rightarrow> Inl e
                                  | Inr flanked \<Rightarrow> Inr (\<not> flanked))
                            else Inr False) of
                        Inl e \<Rightarrow> Inl e
                      | Inr trailingSpace \<Rightarrow> Inr (leadingSpace, trailingSpace))))
      else Inr (False, False))"

text \<open>
  \<^verbatim>\<open>flankingWhitespace\<close>: the spaces, followed by the leading whitespace of the first child
  and the trailing whitespace of the last child.
\<close>

definition flankingWhitespace ::
  "(node \<Rightarrow> bool) \<Rightarrow> (string \<Rightarrow> string) \<Rightarrow> node option \<Rightarrow> node option \<Rightarrow> node
     \<Rightarrow> error + string \<times> string" where
  "flankingWhitespace isBlock cleanText previousSibling nextSibling n =
     (case flankingSpaces isBlock cleanText previousSibling nextSibling n of
        Inl e \<Rightarrow> Inl e
      | Inr spaces \<Rightarrow>
          Inr ((if fst spaces then '' '' else [])
                 @ (case childNodes n of [] \<Rightarrow> [] | first # rest \<Rightarrow> leadingOf first),
               (if snd spaces then '' '' else [])
                 @ (case childNodes n of [] \<Rightarrow> [] | first # rest \<Rightarrow> trailingOf (last (childNodes n)))))"

text \<open>
  The whitespace that \<^verbatim>\<open>process\<close> stores in \<^verbatim>\<open>_whitespace\<close>: the node has to carry a
  converter, its content is assembled first, then the whitespace is two blank lines or
  the flanking whitespace followed by the trailing whitespace of the converter; an \<open>li\<close>
  element gets no leading whitespace.
\<close>

definition processWhitespace ::
  "(node \<Rightarrow> bool) \<Rightarrow> (string \<Rightarrow> string) \<Rightarrow> node option \<Rightarrow> node option \<Rightarrow> node
     \<Rightarrow> error + string \<times> string" where
  "processWhitespace isBlock cleanText previousSibling nextSibling n =
     (case annotationOf n of
        None \<Rightarrow> Inl ExpectedConverterNode
      | Some a \<Rightarrow>
          (case getContent cleanText n of
             Inl e \<Rightarrow> Inl e
           | Inr content \<Rightarrow>
               (let converter = n_converter a in
                case (if surroundingBlankLines converter = Some True
                      then Inr ([CHR 0x0A, CHR 0x0A], [CHR 0x0A, CHR 0x0A])
                      else (case flankingWhitespace isBlock cleanText previousSibling nextSibling n of
                              Inl e \<Rightarrow> Inl e
                            | Inr w \<Rightarrow>
                                Inr (fst w, snd w @ (case trailingWhitespace converter of
                                                       None \<Rightarrow> []
                                                     | Some t \<Rightarrow> t)))) of
                  Inl e \<Rightarrow> Inl e
                | Inr whitespace \<Rightarrow>
                    Inr (if elementTag n = Some ''li'' then [] else fst whitespace,
                         snd whitespace))))"

text \<open>
  The form of the whitespace that \<^verbatim>\<open>process\<close> builds: leading whitespace is spaces
  followed by nothing or by two newlines, trailing whitespace is spaces followed by
  newlines.
\<close>

definition leadingShape :: "string \<Rightarrow> bool" where
  "leadingShape s \<longleftrightarrow>
     (let r = dropWhile (\<lambda>x. x = CHR '' '') s in r = [] \<or> r = [CHR 0x0A, CHR 0x0A])"

definition trailingShape :: "string \<Rightarrow> bool" where
  "trailingShape s \<longleftrightarrow> list_all (\<lambda>x. x = CHR 0x0A) (dropWhile (\<lambda>x. x = CHR '' '') s)"

section \<open>Table formatter (src/tables.ts)\<close>

text \<open>The type \<^verbatim>\<open>Alignment\<close>; a column without alignment has \<^verbatim>\<open>null\<close>, here \<open>None\<close>.\<close>

datatype Alignment = AlignLeft | AlignCenter | AlignRight

text \<open>
  The display width of the \<^verbatim>\<open>wcwidth\<close> library is the sum of the widths of the code units
  of the string (0 for control and combining characters, 2 for wide characters, 1
  otherwise). The width of a single code unit is a parameter.
\<close>

definition wcwidth :: "(char \<Rightarrow> nat) \<Rightarrow> string \<Rightarrow> int" where
  "wcwidth charWidth s = int (sum_list (map charWidth s))"

text \<open>
  \<^verbatim>\<open>String.prototype.repeat\<close>: a negative count is a \<^verbatim>\<open>RangeError\<close>, the count \<^verbatim>\<open>NaN\<close>
  (\<open>None\<close>) counts as 0.
\<close>

definition repeat :: "char \<Rightarrow> int option \<Rightarrow> error + string" where
  "repeat c count =
     (case count of
        None \<Rightarrow> Inr []
      | Some k \<Rightarrow> if k < 0 then Inl InvalidCountValue else Inr (replicate (nat k) c))"

text \<open>
  \<^verbatim>\<open>pad\<close>; \<open>invert\<close> is true for the call \<^verbatim>\<open>pad(length, text)\<close>, which pads on the left.
  A length read past the end of \<^verbatim>\<open>columnWidths\<close> is \<^verbatim>\<open>undefined\<close> (\<open>None\<close>).
\<close>

definition pad :: "(char \<Rightarrow> nat) \<Rightarrow> bool \<Rightarrow> string \<Rightarrow> int option \<Rightarrow> char \<Rightarrow> error + string" where
  "pad charWidth invert text len c =
     (case repeat c (map_option (\<lambda>l. l - wcwidth charWidth text) len) of
        Inl e \<Rightarrow> Inl e
      | Inr res \<Rightarrow> Inr (if invert then res @ text else text @ res))"

text \<open>
  \<^verbatim>\<open>getCellAlignment\<close>: the first match of \<^verbatim>\<open>/text-align:\s*(right|left|center)/\<close> in the
  \<^verbatim>\<open>style\<close> attribute. \<open>alignmentAt\<close> is the match at the start of a string.
\<close>

definition alignmentAt :: "string \<Rightarrow> Alignment option" where
  "alignmentAt t =
     (if prefix ''text-align:'' t
      then (let r = dropWhile isWhitespace (drop 11 t)
            in if prefix ''right'' r then Some AlignRight
               else if prefix ''left'' r then Some AlignLeft
               else if prefix ''center'' r then Some AlignCenter
               else None)
      else None)"

fun matchTextAlign :: "string \<Rightarrow> Alignment option" where
  "matchTextAlign [] = None"
| "matchTextAlign (c # cs) =
     (case alignmentAt (c # cs) of Some a \<Rightarrow> Some a | None \<Rightarrow> matchTextAlign cs)"

definition getCellAlignment :: "node \<Rightarrow> Alignment option" where
  "getCellAlignment n =
     (case getAttribute n ''style'' of None \<Rightarrow> None | Some s \<Rightarrow> matchTextAlign s)"

text \<open>\<^verbatim>\<open>joinColumns\<close>; \<^verbatim>\<open>columns[0]\<close> of an empty array prints as \<^verbatim>\<open>undefined\<close>.\<close>

fun joinWith :: "string \<Rightarrow> string list \<Rightarrow> string" where
  "joinWith sep [] = []"
| "joinWith sep [x] = x"
| "joinWith sep (x # y # ys) = x @ sep @ joinWith sep (y # ys)"

definition joinColumns :: "string list \<Rightarrow> string" where
  "joinColumns columns =
     (if length columns > 1 then joinWith '' | '' columns
      else ''| '' @ (case columns of [] \<Rightarrow> ''undefined'' | c # cs \<Rightarrow> c))"

text \<open>
  \<^verbatim>\<open>extractColumns\<close>: the replacement and the alignment of every \<^verbatim>\<open>th\<close>/\<^verbatim>\<open>td\<close> child of
  a row that carries a converter; a text node in a row is an error.
\<close>

definition isCell :: "node \<Rightarrow> bool" where
  "isCell column \<longleftrightarrow>
     (case elementTag column of None \<Rightarrow> False | Some t \<Rightarrow> t \<in> set [''th'', ''td''])
     \<and> isConverterNode column"

definition replacementOf :: "node \<Rightarrow> string" where
  "replacementOf n = (case annotationOf n of None \<Rightarrow> [] | Some a \<Rightarrow> n_replacement a)"

fun extractColumnsFrom :: "node list \<Rightarrow> error + string list \<times> Alignment option list" where
  "extractColumnsFrom [] = Inr ([], [])"
| "extractColumnsFrom (column # rest) =
     (if isCell column
      then (case extractColumnsFrom rest of
              Inl e \<Rightarrow> Inl e
            | Inr r \<Rightarrow> Inr (replacementOf column # fst r, getCellAlignment column # snd r))
      else if isTextNode column then Inl CannotHandleInTableRow
      else extractColumnsFrom rest)"

definition extractColumns :: "node \<Rightarrow> error + string list \<times> Alignment option list" where
  "extractColumns row =
     (if isParentNode row then extractColumnsFrom (childNodes row) else Inr ([], []))"

text \<open>
  The loop over \<^verbatim>\<open>row.alignments\<close> in \<^verbatim>\<open>extractRows\<close>, from index \<open>i\<close> on: a column seen
  for the first time takes the alignment of this row, and a column seen before has to
  have the same alignment (\<^verbatim>\<open>alignments[i]\<close> past the end is \<^verbatim>\<open>undefined\<close>, which differs
  from every alignment).
\<close>

fun mergeAlignments ::
  "nat \<Rightarrow> Alignment option list \<Rightarrow> Alignment option list \<Rightarrow> error + Alignment option list" where
  "mergeAlignments i [] alignments = Inr alignments"
| "mergeAlignments i (alignment # rest) alignments =
     (let alignments = (if i + 1 > length alignments then alignments @ [alignment]
                        else alignments)
      in if i < length alignments \<and> alignment = alignments ! i
         then mergeAlignments (i + 1) rest alignments
         else Inl (AlignmentNotConsistent i))"

text \<open>
  The \<^verbatim>\<open>forEach\<close> over the children of a dequeued node; the state is
  \<open>(alignments, rows, inqueue)\<close>.
\<close>

fun scanChildren ::
  "node list \<Rightarrow> Alignment option list \<times> string list list \<times> node list
     \<Rightarrow> error + Alignment option list \<times> string list list \<times> node list" where
  "scanChildren [] st = Inr st"
| "scanChildren (child # cs) (alignments, rows, inqueue) =
     (if elementTag child = Some ''tr''
      then (case extractColumns child of
              Inl e \<Rightarrow> Inl e
            | Inr row \<Rightarrow>
                (case mergeAlignments 0 (snd row) alignments of
                   Inl e \<Rightarrow> Inl e
                 | Inr alignments' \<Rightarrow> scanChildren cs (alignments', rows @ [fst row], inqueue)))
      else if isElement child then scanChildren cs (alignments, rows, inqueue @ [child])
      else scanChildren cs (alignments, rows, inqueue))"

text \<open>
  The search of \<^verbatim>\<open>extractRows\<close> takes a node from the queue and appends those of its
  children that are elements other than rows; the number of nodes in and below the queue
  goes down with every round.
\<close>

fun nodeSize :: "node \<Rightarrow> nat" where
  "nodeSize (Element e cs) = Suc (sum_list (map nodeSize cs))"
| "nodeSize (DocumentFragment cs) = Suc (sum_list (map nodeSize cs))"
| "nodeSize n = 1"

definition queued :: "node list \<Rightarrow> node list" where
  "queued cs = filter (\<lambda>c. isElement c \<and> elementTag c \<noteq> Some ''tr'') cs"

lemma scanChildren_queue:
  "scanChildren cs (alignments, rows, inqueue) = Inr (alignments', rows', inqueue')
     \<Longrightarrow> inqueue' = inqueue @ queued cs"
proof (induction cs arbitrary: alignments rows inqueue)
  case Nil
  then show ?case by (simp add: queued_def)
next
  case (Cons child cs)
  show ?case
  proof (cases "elementTag child = Some ''tr''")
    case True
    with Cons.prems obtain a r where "scanChildren cs (a, r, inqueue) = Inr (alignments', rows', inqueue')"
      by (auto split: sum.splits)
    from Cons.IH [OF this] True show ?thesis by (simp add: queued_def)
  next
    case False
    show ?thesis
    proof (cases "isElement child")
      case True
      with False Cons.prems
      have "scanChildren cs (alignments, rows, inqueue @ [child]) = Inr (alignments', rows', inqueue')"
        by simp
      from Cons.IH [OF this] True False show ?thesis by (simp add: queued_def)
    next
      case no: False
      with False Cons.prems
      have "scanChildren cs (alignments, rows, inqueue) = Inr (alignments', rows', inqueue')"
        by simp
      from Cons.IH [OF this] no show ?thesis by (simp add: queued_def)
    qed
  qed
qed

lemma queued_size: "sum_list (map nodeSize (queued cs)) \<le> sum_list (map nodeSize cs)"
  by (induction cs) (auto simp: queued_def)

lemma nodeSize_pos: "0 < nodeSize n"
  by (cases n) simp_all

lemma childNodes_size: "isParentNode n \<Longrightarrow> sum_list (map nodeSize (childNodes n)) < nodeSize n"
  by (cases n) simp_all

text \<open>The \<^verbatim>\<open>while (inqueue.length > 0)\<close> loop of \<^verbatim>\<open>extractRows\<close>.\<close>

function extractRowsLoop ::
  "Alignment option list \<Rightarrow> string list list \<Rightarrow> node list
     \<Rightarrow> error + Alignment option list \<times> string list list" where
  "extractRowsLoop alignments rows [] = Inr (alignments, rows)"
| "extractRowsLoop alignments rows (elem # inqueue) =
     (if isParentNode elem
      then (case scanChildren (childNodes elem) (alignments, rows, inqueue) of
              Inl e \<Rightarrow> Inl e
            | Inr st \<Rightarrow> extractRowsLoop (fst st) (fst (snd st)) (snd (snd st)))
      else extractRowsLoop alignments rows inqueue)"
  by pat_completeness auto
termination
proof (relation "measure (\<lambda>(alignments, rows, inqueue). sum_list (map nodeSize inqueue))")
  fix alignments :: "Alignment option list" and rows :: "string list list"
    and elem inqueue st
  assume p: "isParentNode elem"
    and s: "scanChildren (childNodes elem) (alignments, rows, inqueue) = Inr st"
  obtain a r q where st: "st = (a, r, q)" by (cases st)
  from scanChildren_queue [OF s [unfolded st]] have "q = inqueue @ queued (childNodes elem)" .
  then show "((fst st, fst (snd st), snd (snd st)), alignments, rows, elem # inqueue)
      \<in> measure (\<lambda>(alignments, rows, inqueue). sum_list (map nodeSize inqueue))"
    using queued_size [of "childNodes elem"] childNodes_size [OF p] by (simp add: st)
qed (simp_all add: nodeSize_pos)

text \<open>
  The final \<^verbatim>\<open>while\<close> loop of \<^verbatim>\<open>extractRows\<close>: alignments beyond the header row are
  dropped from the end while they are \<^verbatim>\<open>null\<close>.
\<close>

function dropTrailingNulls :: "nat \<Rightarrow> Alignment option list \<Rightarrow> Alignment option list" where
  "dropTrailingNulls n alignments =
     (if length alignments > n \<and> last alignments = None
      then dropTrailingNulls n (butlast alignments)
      else alignments)"
  by pat_completeness auto
termination
  by (relation "measure (\<lambda>(n, alignments). length alignments)") auto

declare dropTrailingNulls.simps [simp del]

text \<open>\<^verbatim>\<open>extractRows\<close>; \<^verbatim>\<open>rows[0].length\<close> of a table without rows is a \<^verbatim>\<open>TypeError\<close>.\<close>

definition extractRows :: "node \<Rightarrow> error + Alignment option list \<times> string list list" where
  "extractRows n =
     (case extractRowsLoop [] [] [n] of
        Inl e \<Rightarrow> Inl e
      | Inr r \<Rightarrow> (case snd r of
                    [] \<Rightarrow> Inl UndefinedRow
                  | header # rest \<Rightarrow> Inr (dropTrailingNulls (length header) (fst r), snd r)))"

text \<open>\<^verbatim>\<open>xs[i]\<close>, \<open>None\<close> past the end.\<close>

definition nthOpt :: "'a list \<Rightarrow> nat \<Rightarrow> 'a option" where
  "nthOpt xs i = (if i < length xs then Some (xs ! i) else None)"

text \<open>
  The body of the \<^verbatim>\<open>map\<close> in \<^verbatim>\<open>formatRow\<close> for one cell; an alignment that is \<^verbatim>\<open>null\<close> or
  missing takes the default branch. \<open>width\<close> is \<^verbatim>\<open>columnWidths[i]\<close>, \<open>None\<close> when the index is
  past the end. In the branch for \<^verbatim>\<open>right\<close> the width is the first argument of \<^verbatim>\<open>pad\<close>: when
  it is \<^verbatim>\<open>undefined\<close> its type is not \<^verbatim>\<open>number\<close>, the arguments are not swapped and
  \<^verbatim>\<open>text.toString()\<close> throws. In the other two branches a missing width makes the pad
  length \<^verbatim>\<open>NaN\<close>, and \<^verbatim>\<open>repeat(NaN)\<close> is the empty string.
\<close>

definition formatCell ::
  "(char \<Rightarrow> nat) \<Rightarrow> Alignment option \<Rightarrow> int option \<Rightarrow> string \<Rightarrow> error + string" where
  "formatCell charWidth alignment width column =
     (case alignment of
        Some AlignRight \<Rightarrow>
          (case width of
             None \<Rightarrow> Inl UndefinedToString
           | Some w \<Rightarrow> pad charWidth True column (Some w) CHR '' '')
      | Some AlignCenter \<Rightarrow>
          (let whitespace = map_option (\<lambda>w. w - int (length column)) width
           in case pad charWidth True column
                     (map_option (\<lambda>ws. ws div 2 + int (length column)) whitespace) CHR '' '' of
                Inl e \<Rightarrow> Inl e
              | Inr leftPadded \<Rightarrow>
                  pad charWidth False leftPadded
                    (map_option (\<lambda>ws. (ws + 1) div 2 + int (length leftPadded)) whitespace)
                    CHR '' '')
      | _ \<Rightarrow> pad charWidth False column width CHR '' '')"

text \<open>The \<^verbatim>\<open>map\<close> over the cells of the row, from index \<open>i\<close> on; the first error ends it.\<close>

fun formatCells ::
  "(char \<Rightarrow> nat) \<Rightarrow> nat \<Rightarrow> string list \<Rightarrow> Alignment option list \<Rightarrow> int list
     \<Rightarrow> error + string list" where
  "formatCells charWidth i [] alignments columnWidths = Inr []"
| "formatCells charWidth i (column # row) alignments columnWidths =
     (case formatCell charWidth (Option.bind (nthOpt alignments i) id) (nthOpt columnWidths i) column of
        Inl e \<Rightarrow> Inl e
      | Inr cell \<Rightarrow>
          (case formatCells charWidth (i + 1) row alignments columnWidths of
             Inl e \<Rightarrow> Inl e
           | Inr cells \<Rightarrow> Inr (cell # cells)))"

text \<open>\<^verbatim>\<open>formatRow\<close>.\<close>

definition formatRow ::
  "(char \<Rightarrow> nat) \<Rightarrow> string list \<Rightarrow> Alignment option list \<Rightarrow> int list \<Rightarrow> error + string" where
  "formatRow charWidth row alignments columnWidths =
     (case formatCells charWidth 0 row alignments columnWidths of
        Inl e \<Rightarrow> Inl e
      | Inr cells \<Rightarrow> Inr (trimRight (joinColumns cells)))"

text \<open>\<^verbatim>\<open>getColumnWidths\<close>; \<open>widenBy\<close> is the inner \<^verbatim>\<open>forEach\<close> over the cells of one row.\<close>

fun widenBy :: "(char \<Rightarrow> nat) \<Rightarrow> int list \<Rightarrow> string list \<Rightarrow> int list" where
  "widenBy charWidth (w # columnWidths) (column # row) =
     max (wcwidth charWidth column) w # widenBy charWidth columnWidths row"
| "widenBy charWidth columnWidths [] = columnWidths"
| "widenBy charWidth [] row = []"

definition getColumnWidths :: "(char \<Rightarrow> nat) \<Rightarrow> string list list \<Rightarrow> error + int list" where
  "getColumnWidths charWidth rows =
     (case rows of
        [] \<Rightarrow> Inl UndefinedRow
      | header # rest \<Rightarrow>
          Inr (foldl (widenBy charWidth) (map (\<lambda>cell. int (length cell)) header) rows))"

subsection \<open>The rows of a table and their alignments\<close>

text \<open>
  For stating what \<open>extractRows\<close> computes: the rows in the order in which the search
  finds them, the alignments of the cells of a row, the alignment of the first row that
  has a cell in a column, and the row-by-row merge that the search performs.
\<close>

definition isRow :: "node \<Rightarrow> bool" where
  "isRow c \<longleftrightarrow> elementTag c = Some ''tr''"

definition rowAlignments :: "node \<Rightarrow> Alignment option list" where
  "rowAlignments row = map getCellAlignment (filter isCell (childNodes row))"

function tableRows :: "node list \<Rightarrow> node list" where
  "tableRows [] = []"
| "tableRows (elem # inqueue) =
     filter isRow (childNodes elem) @ tableRows (inqueue @ queued (childNodes elem))"
  by pat_completeness auto
termination
proof (relation "measure (\<lambda>inqueue. sum_list (map nodeSize inqueue))")
  fix elem inqueue
  have "sum_list (map nodeSize (childNodes elem)) < nodeSize elem"
    using nodeSize_pos [of elem] by (cases elem) simp_all
  then show "(inqueue @ queued (childNodes elem), elem # inqueue)
      \<in> measure (\<lambda>inqueue. sum_list (map nodeSize inqueue))"
    using queued_size [of "childNodes elem"] by simp
qed simp

definition columnAlignment :: "node list \<Rightarrow> nat \<Rightarrow> Alignment option" where
  "columnAlignment rs j =
     (case find (\<lambda>row. j < length (rowAlignments row)) rs of
        None \<Rightarrow> None
      | Some row \<Rightarrow> rowAlignments row ! j)"

fun mergeRows ::
  "node list \<Rightarrow> Alignment option list \<times> string list list
     \<Rightarrow> error + Alignment option list \<times> string list list" where
  "mergeRows [] st = Inr st"
| "mergeRows (row # rs) st =
     (case extractColumns row of
        Inl e \<Rightarrow> Inl e
      | Inr r \<Rightarrow>
          (case mergeAlignments 0 (snd r) (fst st) of
             Inl e \<Rightarrow> Inl e
           | Inr alignments' \<Rightarrow> mergeRows rs (alignments', snd st @ [fst r])))"

section \<open>Example nodes\<close>

text \<open>
  The nodes of the examples: an \<open>em\<close> element, an anchor with given attributes, an \<open>li\<close>
  element that carries the list-item rule, a \<open>ul\<close> element that carries the list rule, a
  node of type \<open>checkbox\<close>, an element whose
  replacement and whitespace have been computed, table cells with a \<open>style\<close> attribute, and
  elements without attributes or annotation.
\<close>

definition emNode :: node where
  "emNode = Element \<lparr>ntype = ''tag'', tagName = ''em'', attribs = [], checked = False,
                     className = None, annot = None\<rparr> [TextNode ''x'']"





definition annotated :: "string \<Rightarrow> string \<Rightarrow> string \<times> string \<Rightarrow> node" where
  "annotated tag text w =
     Element \<lparr>ntype = ''tag'', tagName = tag, attribs = [], checked = False, className = None,
              annot = Some \<lparr>n_converter = \<lparr>cfilter = FString tag, surroundingBlankLines = None,
                                trailingWhitespace = None, producer = PFallback\<rparr>,
                             n_replacement = text, n_whitespace = Some w\<rparr>\<rparr> []"

definition siblings :: "node list" where
  "siblings = [annotated ''li'' ''- a'' ([], [CHR 0x0A, CHR 0x0A, CHR 0x0A]),
               annotated ''li'' ''- b'' ([], [CHR 0x0A])]"

definition cell :: "string \<Rightarrow> string \<Rightarrow> string \<Rightarrow> node" where
  "cell tag style text =
     Element \<lparr>ntype = ''tag'', tagName = tag, attribs = [(''style'', style)], checked = False,
              className = None,
              annot = Some \<lparr>n_converter = \<lparr>cfilter = FArray [''td'', ''th''],
                                surroundingBlankLines = Some False,
                                trailingWhitespace = None, producer = PCell\<rparr>,
                             n_replacement = text, n_whitespace = None\<rparr>\<rparr> []"

definition plain :: "string \<Rightarrow> node list \<Rightarrow> node" where
  "plain tag cs = Element \<lparr>ntype = ''tag'', tagName = tag, attribs = [], checked = False,
                           className = None, annot = None\<rparr> cs"

definition goodTable :: node where
  "goodTable = plain ''table''
     [plain ''thead'' [plain ''tr'' [cell ''th'' ''text-align: right'' ''a'', cell ''th'' [] ''b'']],
      plain ''tbody'' [plain ''tr'' [cell ''td'' ''text-align:right'' ''c'', cell ''td'' [] ''d'']]]"

definition badTable :: node where
  "badTable = plain ''table''
     [plain ''thead'' [plain ''tr'' [cell ''th'' ''text-align: right'' ''a'']],
      plain ''tbody'' [plain ''tr'' [cell ''td'' ''text-align: left'' ''c'']]]"

text \<open>A width function under which the letter W is a double-width character.\<close>

definition wideW :: "char \<Rightarrow> nat" where
  "wideW c = (if c = CHR ''W'' then 2 else 1)"

section \<open>Properties of the heading normalizer\<close>

text \<open>
  Claim C2. The three documented repairs: \<open>[h1, h3, h3]\<close> becomes \<open>[h1, h2, h2]\<close>; without
  forcing the first header to level 1, \<open>[h3, h5]\<close> has root depth 3 and becomes \<open>[h3, h4]\<close>,
  and \<open>[h2, h1]\<close> becomes \<open>[h2, h2]\<close>.
\<close>

theorem fixHeaders_examples:
  "fixHeaders True [''h1'', ''h3'', ''h3''] = Some [''h1'', ''h2'', ''h2'']
   \<and> initialDepth False ''h3'' + 1 = 3
   \<and> fixHeaders False [''h3'', ''h5''] = Some [''h3'', ''h4'']
   \<and> fixHeaders False [''h2'', ''h1''] = Some [''h2'', ''h2'']"
  by code_simp

lemma parseDigit_range: "parseDigit c = Some d \<Longrightarrow> 0 \<le> d \<and> d \<le> 9"
  by (auto simp: parseDigit_def split: if_splits)

lemma headerDepth_range: "headerDepth t = Some d \<Longrightarrow> 0 \<le> d \<and> d \<le> 9"
  by (cases t rule: headerDepth.cases) (auto dest: parseDigit_range)

lemma parseDigit_digit: "n < 10 \<Longrightarrow> parseDigit (''0123456789'' ! n) = Some (int n)"
proof -
  assume "n < 10"
  then have "n \<in> {0,1,2,3,4,5,6,7,8,9}" by auto
  then show ?thesis by (auto simp: parseDigit_def)
qed

lemma showNat_hd: "showNat n \<noteq> [] \<and> parseDigit (hd (showNat n)) \<noteq> None"
proof (induction n rule: showNat.induct)
  case (1 n)
  show ?case
  proof (cases "n < 10")
    case True
    then show ?thesis
      using parseDigit_digit [of n] by (subst showNat.simps, subst showNat.simps) simp
  next
    case False
    with 1 have "showNat (n div 10) \<noteq> [] \<and> parseDigit (hd (showNat (n div 10))) \<noteq> None"
      by simp
    with False show ?thesis by (subst showNat.simps, subst (2) showNat.simps) simp
  qed
qed

lemma headerDepth_show_small:
  assumes "0 \<le> k" "k \<le> 9"
  shows "headerDepth (''h'' @ showInt k) = Some k"
proof -
  from assms have "nat k < 10" by simp
  then show ?thesis
    using assms parseDigit_digit [of "nat k"]
    by (simp add: showInt_def showNat.simps [of "nat k"])
qed

lemma headerDepth_show_nonneg:
  assumes "0 \<le> k"
  shows "headerDepth (''h'' @ showInt k) \<noteq> None"
proof -
  obtain c cs where "showNat (nat k) = c # cs"
    using showNat_hd [of "nat k"] by (cases "showNat (nat k)") auto
  moreover from this have "parseDigit c \<noteq> None" using showNat_hd [of "nat k"] by simp
  ultimately show ?thesis using assms by (simp add: showInt_def)
qed

lemma length_shiftRun: "length (shiftRun d gap ts) = length ts"
  by (induction ts) (auto split: option.splits)

lemma shiftRun_parseable:
  assumes "\<forall>t \<in> set ts. headerDepth t \<noteq> None" "gap \<le> d"
  shows "\<forall>t \<in> set (shiftRun d gap ts). headerDepth t \<noteq> None"
  using assms
proof (induction ts)
  case Nil
  then show ?case by simp
next
  case (Cons t ts)
  then obtain c where c: "headerDepth t = Some c" by auto
  show ?case
  proof (cases "d \<le> c")
    case True
    with Cons.prems have "0 \<le> c - gap" by simp
    then have "headerDepth (''h'' @ showInt (c - gap)) \<noteq> None" by (rule headerDepth_show_nonneg)
    with Cons c True show ?thesis by simp
  next
    case False
    with Cons c show ?thesis by simp
  qed
qed

text \<open>
  The loop needs at most two passes per header: a header that breaks the rule is moved to
  the nearest allowed depth, which is a single digit, and is accepted on the next pass.
  Headers before position \<open>i\<close> are never touched again.
\<close>

lemma fixLoop_converges:
  assumes "\<forall>t \<in> set hs. headerDepth t \<noteq> None"
    and "0 \<le> rootDepth" "rootDepth \<le> 9" "rootDepth \<le> lastHeaderDepth + 1"
    and "length hs - i = n"
  shows "\<exists>out. fixLoop rootDepth i lastHeaderDepth hs = Some out \<and> length out = length hs
           \<and> take i out = take i hs \<and> followsRules rootDepth lastHeaderDepth (drop i out)"
  using assms
proof (induction n arbitrary: hs i lastHeaderDepth)
  case 0
  then have "\<not> i < length hs" by simp
  then show ?case by (subst fixLoop.simps) simp
next
  case (Suc n)
  then have i: "i < length hs" by simp
  then obtain d where d: "headerDepth (hs ! i) = Some d" using Suc.prems(1) by fastforce
  have accept: "\<exists>out. fixLoop rootDepth i last' hs' = Some out \<and> length out = length hs'
           \<and> take i out = take i hs' \<and> followsRules rootDepth last' (drop i out)"
    if par: "\<forall>t \<in> set hs'. headerDepth t \<noteq> None" and len: "length hs' = length hs"
      and d': "headerDepth (hs' ! i) = Some d'" and ok: "rootDepth \<le> d'" "d' \<le> last' + 1"
    for hs' d' last'
  proof -
    have "length hs' - (i + 1) = n" using Suc.prems(5) len by simp
    with Suc.IH [of hs' d' "i + 1"] par Suc.prems(2,3) ok
    obtain out where out: "fixLoop rootDepth (i + 1) d' hs' = Some out" "length out = length hs'"
      "take (i + 1) out = take (i + 1) hs'" "followsRules rootDepth d' (drop (i + 1) out)"
      by auto
    have i': "i < length hs'" "i < length out" using i len out(2) by simp_all
    from out(3) have "take i (take (i + 1) out) = take i (take (i + 1) hs')" by simp
    then have tk: "take i out = take i hs'" by (simp add: min_def)
    from out(3) i' have nth: "out ! i = hs' ! i"
      by (metis add.commute less_add_one nth_take plus_1_eq_Suc)
    have "drop i out = out ! i # drop (i + 1) out" using i' by (simp add: Cons_nth_drop_Suc)
    with nth d' ok out(4) have "followsRules rootDepth last' (drop i out)" by simp
    moreover have "fixLoop rootDepth i last' hs' = Some out"
      using i' d' ok out(1) by (subst fixLoop.simps) simp
    ultimately show ?thesis using out(2) tk by blast
  qed
  show ?case
  proof (cases "rootDepth \<le> d \<and> d \<le> lastHeaderDepth + 1")
    case True
    with accept [of hs d lastHeaderDepth] Suc.prems(1) d show ?thesis by simp
  next
    case False
    define gap where "gap = (if d \<le> rootDepth then d - rootDepth else d - (lastHeaderDepth + 1))"
    define hs' where "hs' = take i hs @ shiftRun d gap (drop i hs)"
    have range: "0 \<le> d" "d \<le> 9" using headerDepth_range [OF d] by simp_all
    have new: "rootDepth \<le> d - gap" "d - gap \<le> lastHeaderDepth + 1" "0 \<le> d - gap" "d - gap \<le> 9"
      using False Suc.prems(2,3,4) range by (auto simp: gap_def)
    have len: "length hs' = length hs" using i by (simp add: hs'_def length_shiftRun)
    have dr: "drop i hs = hs ! i # drop (Suc i) hs" using i by (simp add: Cons_nth_drop_Suc)
    have "\<forall>t \<in> set (drop i hs). headerDepth t \<noteq> None"
      using Suc.prems(1) by (meson in_set_dropD)
    then have "\<forall>t \<in> set (shiftRun d gap (drop i hs)). headerDepth t \<noteq> None"
      using new(3) by (intro shiftRun_parseable) simp_all
    moreover have "\<forall>t \<in> set (take i hs). headerDepth t \<noteq> None"
      using Suc.prems(1) by (meson in_set_takeD)
    ultimately have par: "\<forall>t \<in> set hs'. headerDepth t \<noteq> None" by (auto simp: hs'_def)
    have "hs' ! i = ''h'' @ showInt (d - gap)"
      using i d dr by (simp add: hs'_def nth_append)
    then have d': "headerDepth (hs' ! i) = Some (d - gap)"
      using headerDepth_show_small [OF new(3,4)] by simp
    from accept [OF par len d' new(1,2)] obtain out where
      out: "fixLoop rootDepth i lastHeaderDepth hs' = Some out" "length out = length hs'"
        "take i out = take i hs'" "followsRules rootDepth lastHeaderDepth (drop i out)"
      by blast
    have "fixLoop rootDepth i lastHeaderDepth hs = fixLoop rootDepth i lastHeaderDepth hs'"
      using i d False by (subst fixLoop.simps) (auto simp: hs'_def gap_def Let_def)
    moreover have "take i hs' = take i hs" using i by (simp add: hs'_def)
    ultimately show ?thesis using out len by auto
  qed
qed

lemma followsRules_nth:
  assumes "followsRules rootDepth lastHeaderDepth ts" "k < length ts"
  shows "\<exists>d. headerDepth (ts ! k) = Some d \<and> rootDepth \<le> d
           \<and> d \<le> (if k = 0 then lastHeaderDepth else the (headerDepth (ts ! (k - 1)))) + 1"
  using assms
proof (induction ts arbitrary: lastHeaderDepth k)
  case Nil
  then show ?case by simp
next
  case (Cons t ts)
  then obtain d where d: "headerDepth t = Some d" "rootDepth \<le> d" "d \<le> lastHeaderDepth + 1"
    "followsRules rootDepth d ts"
    by (auto split: option.splits)
  show ?case
  proof (cases k)
    case 0
    with d show ?thesis by simp
  next
    case (Suc j)
    with Cons.prems have "j < length ts" by simp
    from Cons.IH [OF d(4) this] Suc d(1) show ?thesis by (cases j) auto
  qed
qed

lemma initialDepth_root:
  assumes "headerDepth firstTag = Some d"
  shows "initialDepth False firstTag + 1 = d"
  using assms by (simp add: initialDepth_def)

text \<open>The heading elements \<open>h1\<close> .. \<open>h6\<close> are selected and their level parses.\<close>

lemma heading_tags:
  assumes "t \<in> set [''h1'', ''h2'', ''h3'', ''h4'', ''h5'', ''h6'']"
  shows "isHeaderTag t \<and> headerDepth t \<noteq> None"
  using assms by (auto simp: parseDigit_def)

text \<open>
  The selecting test also lets through tag names such as \<open>oh1\<close>, whose second character
  is not a digit. On these the loop makes no progress: it never returns.
\<close>

lemma fixLoop_stuck:
  assumes "fixLoop rootDepth i lastHeaderDepth hs = Some out"
  shows "\<not> (i < length hs \<and> headerDepth (hs ! i) = None)"
proof (rule fixLoop.raw_induct [where P = "\<lambda>r i l hs out. \<not> (i < length hs \<and> headerDepth (hs ! i) = None)",
      OF _ assms])
  fix f r i l hs out
  assume IH: "\<And>r i l hs out. f r i l hs = Some out \<Longrightarrow> \<not> (i < length hs \<and> headerDepth (hs ! i) = None)"
    and step: "(if i < length hs then
        (case headerDepth (hs ! i) of
           None \<Rightarrow> f r i l hs
         | Some d \<Rightarrow>
             if r \<le> d \<and> d \<le> l + 1
             then f r (i + 1) d hs
             else
               let gap = (if d \<le> r then d - r else d - (l + 1))
               in f r i l (take i hs @ shiftRun d gap (drop i hs)))
      else Some hs) = Some out"
  show "\<not> (i < length hs \<and> headerDepth (hs ! i) = None)"
  proof
    assume stuck: "i < length hs \<and> headerDepth (hs ! i) = None"
    with step have "f r i l hs = Some out" by simp
    from IH [OF this] stuck show False by simp
  qed
qed

lemma unparsable_header_diverges:
  "isHeaderTag ''oh1'' \<and> headerDepth ''oh1'' = None
   \<and> fixHeaders ensureFirstHeaderIsH1 [''oh1''] = None"
proof -
  have "fixLoop r 0 l [''oh1''] = None" for r l
    using fixLoop_stuck [of r 0 l "[''oh1'']"] by (cases "fixLoop r 0 l [''oh1'']") (auto simp: parseDigit_def)
  then show ?thesis by (simp add: fixHeaders_def parseDigit_def Let_def)
qed

text \<open>
  For every finite list of top-level headers whose level digit parses (as that of
  \<open>h1\<close> .. \<open>h6\<close> does) the correction loop returns. In the result every header has
  a depth \<open>d\<close> with \<open>rootDepth \<le> d\<close>; the first header has exactly the root depth and every
  later one is at most one level deeper than its predecessor. The root depth is 1 when the
  first header is forced to level 1 and the original depth of the first header otherwise.
\<close>

theorem fixHeaders_converges:
  assumes "\<forall>t \<in> set topLevelHeaders. headerDepth t \<noteq> None"
  shows "\<exists>out rootDepth.
           fixHeaders ensureFirstHeaderIsH1 topLevelHeaders = Some out
         \<and> length out = length topLevelHeaders
         \<and> (topLevelHeaders \<noteq> [] \<longrightarrow>
              rootDepth = (if ensureFirstHeaderIsH1 then 1 else the (headerDepth (hd topLevelHeaders))))
         \<and> followsRules rootDepth (rootDepth - 1) out
         \<and> (\<forall>k < length out. \<exists>d. headerDepth (out ! k) = Some d \<and> rootDepth \<le> d
               \<and> (k = 0 \<longrightarrow> d = rootDepth)
               \<and> (0 < k \<longrightarrow> (\<exists>p. headerDepth (out ! (k - 1)) = Some p \<and> d \<le> p + 1)))"
proof (cases topLevelHeaders)
  case Nil
  then show ?thesis by (simp add: fixHeaders_def)
next
  case (Cons firstHeader rest)
  then have False: "topLevelHeaders \<noteq> []" by simp
  from Cons obtain d0 where d0: "headerDepth firstHeader = Some d0"
    using assms by auto
  define last0 where "last0 = initialDepth ensureFirstHeaderIsH1 firstHeader"
  define root where "root = last0 + 1"
  have root_eq: "root = (if ensureFirstHeaderIsH1 then 1 else d0)"
    using initialDepth_root [OF d0] by (simp add: root_def last0_def initialDepth_def)
  have bounds: "0 \<le> root" "root \<le> 9"
    using headerDepth_range [OF d0] root_eq by auto
  from fixLoop_converges [OF assms bounds, of last0 0 "length topLevelHeaders"]
  obtain out where out: "fixLoop root 0 last0 topLevelHeaders = Some out"
    "length out = length topLevelHeaders" "followsRules root last0 out"
    by (auto simp: root_def)
  have run: "fixHeaders ensureFirstHeaderIsH1 topLevelHeaders = Some out"
    using Cons out(1) by (simp add: fixHeaders_def Let_def root_def last0_def)
  have last0: "last0 = root - 1" by (simp add: root_def)
  have nth: "\<exists>d. headerDepth (out ! k) = Some d \<and> root \<le> d
               \<and> (k = 0 \<longrightarrow> d = root)
               \<and> (0 < k \<longrightarrow> (\<exists>p. headerDepth (out ! (k - 1)) = Some p \<and> d \<le> p + 1))"
    if k: "k < length out" for k
  proof (cases k)
    case 0
    with followsRules_nth [OF out(3) k] show ?thesis by (auto simp: last0)
  next
    case (Suc j)
    then have "j < length out" using k by simp
    from followsRules_nth [OF out(3) this] obtain p where "headerDepth (out ! j) = Some p"
      by blast
    with followsRules_nth [OF out(3) k] Suc show ?thesis by auto
  qed
  show ?thesis
    using run out(2) root_eq d0 Cons out(3) nth unfolding last0
    by (intro exI [of _ out] exI [of _ root]) simp
qed

theorem fixHeaders_converges_witness:
  "\<exists>out. fixHeaders False [''h2'', ''h5'', ''h1'', ''h6''] = Some out \<and> length out = 4
         \<and> followsRules 2 1 out"
proof -
  have "\<forall>t \<in> set [''h2'', ''h5'', ''h1'', ''h6'']. headerDepth t \<noteq> None"
    by (simp add: parseDigit_def)
  from fixHeaders_converges [OF this, of False] show ?thesis
    by (auto simp: parseDigit_def)
qed

text \<open>
  Claim C3 fails in the code. The test that selects the top-level headers is not anchored
  and takes the element \<open>oh1\<close> between an \<open>h1\<close> and an \<open>h2\<close> for a header. Its second
  character is not a digit, its depth is \<^verbatim>\<open>NaN\<close>, and the correction loop, having accepted
  the \<open>h1\<close>, stays at the \<open>oh1\<close> for ever: \<open>fixHeaders\<close> does not return, with the first
  header forced to level 1 or not.
\<close>

theorem fixHeaders_hangs_on_selected_tag:
  "topLevelHeadersOf (DocumentFragment [plain ''h1'' [], plain ''oh1'' [], plain ''h2'' []])
     = [''h1'', ''oh1'', ''h2'']
   \<and> fixHeaders True [''h1'', ''oh1'', ''h2''] = None
   \<and> fixHeaders False [''h1'', ''oh1'', ''h2''] = None"
proof -
  have stuck: "fixLoop 1 1 1 [''h1'', ''oh1'', ''h2''] = None"
    using fixLoop_stuck [of 1 1 1 "[''h1'', ''oh1'', ''h2'']"]
    by (cases "fixLoop 1 1 1 [''h1'', ''oh1'', ''h2'']") (auto simp: parseDigit_def)
  have "fixLoop 1 0 0 [''h1'', ''oh1'', ''h2''] = fixLoop 1 1 1 [''h1'', ''oh1'', ''h2'']"
    by (subst fixLoop.simps) (simp add: parseDigit_def)
  with stuck have "fixLoop 1 0 0 [''h1'', ''oh1'', ''h2''] = None" by simp
  then have "fixHeaders True [''h1'', ''oh1'', ''h2''] = None"
    and "fixHeaders False [''h1'', ''oh1'', ''h2''] = None"
    by (simp_all add: fixHeaders_def initialDepth_def parseDigit_def Let_def)
  moreover have "topLevelHeadersOf (DocumentFragment [plain ''h1'' [], plain ''oh1'' [], plain ''h2'' []])
     = [''h1'', ''oh1'', ''h2'']"
    by (simp add: topLevelHeadersOf_def plain_def List.map_filter_def)
  ultimately show ?thesis by simp
qed


section \<open>Properties of rule resolution\<close>

lemma canConvert_total: "f \<noteq> FOther \<Longrightarrow> \<exists>b. canConvert p n f = Inr b"
  by (cases f) simp_all

lemma findIn_first_match:
  assumes "\<forall>c \<in> set cs. cfilter c \<noteq> FOther"
    and "\<exists>c \<in> set cs. canConvert p n (cfilter c) = Inr True"
  shows "\<exists>pre c post. cs = pre @ c # post \<and> findIn cs p n = Inr (Some c)
           \<and> canConvert p n (cfilter c) = Inr True
           \<and> (\<forall>d \<in> set pre. canConvert p n (cfilter d) = Inr False)"
  using assms
proof (induction cs)
  case Nil
  then show ?case by simp
next
  case (Cons c cs)
  from Cons.prems(1) obtain b where b: "canConvert p n (cfilter c) = Inr b"
    using canConvert_total [of "cfilter c" p n] by auto
  show ?case
  proof (cases b)
    case True
    with b have "c # cs = [] @ c # cs \<and> findIn (c # cs) p n = Inr (Some c)
        \<and> canConvert p n (cfilter c) = Inr True
        \<and> (\<forall>d \<in> set []. canConvert p n (cfilter d) = Inr False)"
      by simp
    then show ?thesis by blast
  next
    case False
    with b Cons.prems have "\<forall>c \<in> set cs. cfilter c \<noteq> FOther"
      "\<exists>c \<in> set cs. canConvert p n (cfilter c) = Inr True"
      by auto
    from Cons.IH [OF this] obtain pre d post where
      IH: "cs = pre @ d # post" "findIn cs p n = Inr (Some d)"
        "canConvert p n (cfilter d) = Inr True"
        "\<forall>x \<in> set pre. canConvert p n (cfilter x) = Inr False"
      by blast
    from IH b False have "c # cs = (c # pre) @ d # post \<and> findIn (c # cs) p n = Inr (Some d)
        \<and> canConvert p n (cfilter d) = Inr True
        \<and> (\<forall>x \<in> set (c # pre). canConvert p n (cfilter x) = Inr False)"
      by simp
    then show ?thesis by blast
  qed
qed

lemma Converters_well_typed: "\<forall>c \<in> set Converters. cfilter c \<noteq> FOther"
  by (simp add: Converters_def)

lemma Converters_last: "cfilter (last Converters) = FFunction fallback"
  by (simp add: Converters_def)

lemma Converters_nonempty: "Converters \<noteq> []"
  by (simp add: Converters_def)

text \<open>
  Claim C4. A string filter matches an element with that tag name, an array filter an
  element whose tag name is in the array, a function filter where the function is true;
  any other filter is an error. \<open>findConverter\<close> walks the rule table in declaration order
  and returns the first rule whose filter matches: all rules before it do not match. The
  last rule of the table has the filter \<open>fallback\<close>, which is true of every node, so every
  node gets a rule.
\<close>

theorem findConverter_first_match:
  "canConvert parentNode n (FString f) = Inr (isElement n \<and> elementTag n = Some f)
   \<and> canConvert parentNode n (FArray fs) = Inr (isElement n \<and> (\<exists>t \<in> set fs. elementTag n = Some t))
   \<and> canConvert parentNode n (FFunction g) = Inr (applyFilterFn g parentNode n)
   \<and> canConvert parentNode n FOther = Inl FilterTypeError
   \<and> cfilter (last Converters) = FFunction fallback
   \<and> applyFilterFn fallback parentNode n
   \<and> (\<exists>pre c post. Converters = pre @ c # post
         \<and> findConverter parentNode n = Inr (Some c)
         \<and> canConvert parentNode n (cfilter c) = Inr True
         \<and> (\<forall>d \<in> set pre. canConvert parentNode n (cfilter d) = Inr False))"
proof -
  have "last Converters \<in> set Converters" using Converters_nonempty by simp
  moreover have "canConvert parentNode n (cfilter (last Converters)) = Inr True"
    by (simp add: Converters_last)
  ultimately have "\<exists>c \<in> set Converters. canConvert parentNode n (cfilter c) = Inr True"
    by blast
  from findIn_first_match [OF Converters_well_typed this]
  have "\<exists>pre c post. Converters = pre @ c # post
         \<and> findConverter parentNode n = Inr (Some c)
         \<and> canConvert parentNode n (cfilter c) = Inr True
         \<and> (\<forall>d \<in> set pre. canConvert parentNode n (cfilter d) = Inr False)"
    by (simp add: findConverter_def)
  moreover have "canConvert parentNode n (FString f) = Inr (isElement n \<and> elementTag n = Some f)"
    by (cases n) simp_all
  moreover have "canConvert parentNode n (FArray fs) = Inr (isElement n \<and> (\<exists>t \<in> set fs. elementTag n = Some t))"
    by (cases n) auto
  ultimately show ?thesis by (simp add: Converters_last)
qed

text \<open>The resolution of an \<open>em\<close> element at the top level of a document.\<close>

theorem findConverter_first_match_witness:
  "\<exists>pre c post. Converters = pre @ c # post
     \<and> findConverter (Some (DocumentFragment [emNode])) emNode = Inr (Some c)
     \<and> canConvert (Some (DocumentFragment [emNode])) emNode (cfilter c) = Inr True
     \<and> (\<forall>d \<in> set pre. canConvert (Some (DocumentFragment [emNode])) emNode (cfilter d) = Inr False)"
  using findConverter_first_match [of "Some (DocumentFragment [emNode])" emNode]
  by blast


section \<open>Properties of the text producers\<close>

lemma escapeChar_escaped: "c \<noteq> CHR 0x5C \<Longrightarrow> escapedFrom c prev (escapeChar c s)"
  by (induction s arbitrary: prev) auto

lemma escapeChar_hd: "c \<noteq> CHR 0x5C \<Longrightarrow> escapeChar c s = x # r \<Longrightarrow> x \<noteq> c"
  by (cases s) (auto split: if_splits)

lemma unescape_escape: "c \<noteq> CHR 0x5C \<Longrightarrow> unescapeChar c (escapeChar c s) = s"
proof (induction s)
  case Nil
  then show ?case by simp
next
  case (Cons x xs)
  show ?case
  proof (cases "x = c")
    case True
    with Cons show ?thesis by simp
  next
    case False
    show ?thesis
    proof (cases "escapeChar c xs")
      case Nil
      with Cons False show ?thesis by simp
    next
      case (Cons y ys)
      with escapeChar_hd [OF Cons.prems this] have "y \<noteq> c" by simp
      with Cons False Cons.IH Cons.prems show ?thesis
        using \<open>escapeChar c xs = y # ys\<close> by simp
    qed
  qed
qed

lemma escapeChar_absent: "c \<notin> set s \<Longrightarrow> escapeChar c s = s"
  by (induction s) auto

text \<open>
  Claim C5, as the code has it. The emphasis producer chooses by the content: content with
  an underscore is wrapped in \<open>*\<close> with every \<open>*\<close> of the content escaped, content without
  an underscore is wrapped in \<open>_\<close> (there is no underscore left to escape). The strong
  producer makes no choice: it always wraps in \<open>**\<close> and escapes every \<open>*\<close> of the content.
  In the escaped text every \<open>*\<close> comes right after a backslash, and reading the escapes back
  gives the content.
\<close>

theorem emphasis_strong_delimiters:
  "(CHR ''_'' \<in> set content \<longrightarrow>
      replacement_em content = ''*'' @ escapeChar CHR ''*'' content @ ''*'')
   \<and> (CHR ''_'' \<notin> set content \<longrightarrow> replacement_em content = ''_'' @ content @ ''_'')
   \<and> replacement_strong content = ''**'' @ escapeChar CHR ''*'' content @ ''**''
   \<and> escapedFrom CHR ''*'' CHR ''*'' (escapeChar CHR ''*'' content)
   \<and> unescapeChar CHR ''*'' (escapeChar CHR ''*'' content) = content"
  by (simp add: replacement_em_def replacement_strong_def escapeChar_absent
      escapeChar_escaped unescape_escape)

theorem emphasis_strong_delimiters_witness:
  "replacement_em ''a_b*c'' = ''*a_b'' @ [CHR 0x5C] @ ''*c*''
   \<and> replacement_em ''ab*c'' = ''_ab*c_''
   \<and> replacement_strong ''a_b*c'' = ''**a_b'' @ [CHR 0x5C] @ ''*c**''"
  using emphasis_strong_delimiters [of "''a_b*c''"] emphasis_strong_delimiters [of "''ab*c''"]
  by simp

text \<open>
  Claim C5 as stated fails for strong: where the emphasis producer changes its delimiter
  with the content, the strong producer gives \<open>**\<close> for content with and without an
  underscore, and never the alternate delimiter \<open>__\<close>.
\<close>

theorem strong_delimiter_counterexample:
  "replacement_em ''a'' = ''_a_'' \<and> replacement_em ''a_b'' = ''*a_b*''
   \<and> replacement_strong ''a'' = ''**a**'' \<and> replacement_strong ''a_b'' = ''**a_b**''
   \<and> replacement_strong ''a'' \<noteq> ''__a__''"
  by (simp add: replacement_em_def replacement_strong_def)

subsection \<open>Links\<close>








subsection \<open>Checkbox\<close>








section \<open>Properties of content assembly\<close>

lemma containsSub_Cons:
  "containsSub sub (c # cs) \<longleftrightarrow> prefix sub (c # cs) \<or> containsSub sub cs"
  by (auto simp: containsSub_def)

lemma collapseNewlines_id:
  "\<not> containsSub [CHR 0x0A, CHR 0x0A, CHR 0x0A] s \<Longrightarrow> collapseNewlines s = s"
  by (induction s) (auto simp: containsSub_Cons)

lemma dropWhile_replicate_run:
  "b = [] \<or> hd b \<noteq> x \<Longrightarrow> dropWhile (\<lambda>y. y = x) (replicate k x @ b) = b"
  by (induction k) (auto simp: dropWhile_eq_self_iff)

lemma prefix_iff_take: "prefix xs ys \<longleftrightarrow> take (length xs) ys = xs"
proof
  assume "prefix xs ys"
  then obtain zs where "ys = xs @ zs" by (auto simp: prefix_def)
  then show "take (length xs) ys = xs" by simp
next
  assume "take (length xs) ys = xs"
  then have "ys = xs @ drop (length xs) ys" by (metis append_take_drop_id)
  then show "prefix xs ys" by (metis prefixI)
qed

lemma take_run: "m \<le> 2 \<Longrightarrow> 2 \<le> k \<Longrightarrow> take m (replicate k c @ b) = take m [c, c]"
proof -
  assume "m \<le> 2" "2 \<le> k"
  then have "take m (replicate k c @ b) = replicate m c" by (simp add: min_def)
  moreover have "take m [c, c] = replicate m c"
    using \<open>m \<le> 2\<close> by (cases m; cases "m - 1") auto
  ultimately show ?thesis by simp
qed

lemma take3_Cons: "take 3 (x # s) = x # take 2 s"
  by (simp add: eval_nat_numeral)

lemma collapseNewlines_first_run:
  assumes "3 \<le> k" and "\<not> containsSub [CHR 0x0A, CHR 0x0A, CHR 0x0A] (a @ [CHR 0x0A, CHR 0x0A])"
    and "b = [] \<or> hd b \<noteq> CHR 0x0A"
  shows "collapseNewlines (a @ replicate k CHR 0x0A @ b) = a @ [CHR 0x0A, CHR 0x0A] @ b"
  using assms(2)
proof (induction a)
  case Nil
  from assms(1) obtain j where k: "k = Suc (Suc (Suc j))"
    by (metis Suc_leD Suc_le_D numeral_3_eq_3 not_less_eq_eq)
  have "dropWhile (\<lambda>y. y = CHR 0x0A) (replicate (Suc (Suc j)) CHR 0x0A @ b) = b"
    using assms(3) by (rule dropWhile_replicate_run)
  then show ?case by (simp add: k)
next
  case (Cons x a)
  let ?nl3 = "[CHR 0x0A, CHR 0x0A, CHR 0x0A]"
  from Cons.prems have "containsSub ?nl3 (x # (a @ [CHR 0x0A, CHR 0x0A])) = False"
    by (simp only: append_Cons)
  then have no: "\<not> prefix ?nl3 (x # a @ [CHR 0x0A, CHR 0x0A])"
    and rest: "\<not> containsSub ?nl3 (a @ [CHR 0x0A, CHR 0x0A])"
    unfolding containsSub_Cons by blast+
  have "take (2 - length a) (replicate k CHR 0x0A @ b) = take (2 - length a) [CHR 0x0A, CHR 0x0A]"
    using assms(1) by (intro take_run) simp_all
  then have "take 2 (a @ replicate k CHR 0x0A @ b) = take 2 (a @ [CHR 0x0A, CHR 0x0A])"
    by (simp only: take_append)
  then have t3: "take 3 (x # a @ replicate k CHR 0x0A @ b) = take 3 (x # a @ [CHR 0x0A, CHR 0x0A])"
    by (metis take3_Cons)
  have len3: "length ?nl3 = 3" by simp
  from no have "take 3 (x # a @ [CHR 0x0A, CHR 0x0A]) \<noteq> ?nl3"
    by (metis prefix_iff_take len3)
  with t3 have "take 3 (x # a @ replicate k CHR 0x0A @ b) \<noteq> ?nl3" by metis
  then have np: "\<not> prefix ?nl3 (x # a @ replicate k CHR 0x0A @ b)"
    by (metis prefix_iff_take len3)
  have "collapseNewlines ((x # a) @ replicate k CHR 0x0A @ b)
          = x # collapseNewlines (a @ replicate k CHR 0x0A @ b)"
    using np by (simp only: append_Cons collapseNewlines.simps if_False)
  with Cons.IH [OF rest] show ?case by simp
qed

lemma getContentLoop_assembled:
  assumes "\<forall>c \<in> set cs. \<not> isBr c"
    and "case prev of None \<Rightarrow> True | Some p \<Rightarrow> \<not> isBr p"
    and "map (getChildText ct) cs = map Inr ts"
  shows "getContentLoop ct (content, prev) cs
           = Inr (content @ assembled prev (zip cs ts), if cs = [] then prev else Some (last cs))"
  using assms
proof (induction cs arbitrary: content prev ts)
  case Nil
  then show ?case by simp
next
  case (Cons c cs)
  from Cons.prems(3) obtain t ts' where ts: "ts = t # ts'" "getChildText ct c = Inr t"
    "map (getChildText ct) cs = map Inr ts'"
    by (cases ts) auto
  let ?content' = "content @ (case prev of None \<Rightarrow> [] | Some p \<Rightarrow> separator p c) @ t"
  have step: "getContentStep ct (content, prev) c = Inr (?content', Some c)"
    using ts(2) Cons.prems(1,2) by (cases prev) (simp_all add: getContentStep_def Let_def)
  have "getContentLoop ct (?content', Some c) cs
          = Inr (?content' @ assembled (Some c) (zip cs ts'),
                 if cs = [] then Some c else Some (last cs))"
    using Cons.prems(1) ts(3) by (intro Cons.IH) simp_all
  with step show ?case by (cases prev) (simp_all add: ts(1))
qed

subsection \<open>Runs of newlines in the whitespace of a node\<close>

lemma containsSub_iff: "containsSub sub s \<longleftrightarrow> (\<exists>p q. s = p @ sub @ q)"
proof (induction s)
  case Nil
  then show ?case by (auto simp: containsSub_def)
next
  case (Cons c cs)
  show ?case
  proof
    assume "containsSub sub (c # cs)"
    then consider "prefix sub (c # cs)" | "containsSub sub cs" by (auto simp: containsSub_Cons)
    then show "\<exists>p q. c # cs = p @ sub @ q"
    proof cases
      case 1
      then obtain q where "c # cs = [] @ sub @ q" by (auto simp: prefix_def)
      then show ?thesis by blast
    next
      case 2
      with Cons obtain p q where "cs = p @ sub @ q" by blast
      then have "c # cs = (c # p) @ sub @ q" by simp
      then show ?thesis by blast
    qed
  next
    assume "\<exists>p q. c # cs = p @ sub @ q"
    then obtain p q where pq: "c # cs = p @ sub @ q" by blast
    show "containsSub sub (c # cs)"
    proof (cases p)
      case Nil
      with pq have "prefix sub (c # cs)" by (metis append_Nil prefixI)
      then show ?thesis by (simp add: containsSub_Cons)
    next
      case (Cons a p')
      with pq have "cs = p' @ sub @ q" by simp
      with Cons.IH have "containsSub sub cs" by blast
      then show ?thesis by (simp add: containsSub_Cons)
    qed
  qed
qed

lemma containsSub_append_right: "containsSub sub x \<Longrightarrow> containsSub sub (x @ y)"
  unfolding containsSub_iff by (metis append.assoc)

lemma containsSub_append_left: "containsSub sub y \<Longrightarrow> containsSub sub (x @ y)"
  unfolding containsSub_iff by (metis append.assoc)

lemma no_triple_spaces:
  "containsSub [CHR 0x0A, CHR 0x0A, CHR 0x0A] (replicate a CHR '' '' @ s)
     \<longleftrightarrow> containsSub [CHR 0x0A, CHR 0x0A, CHR 0x0A] s"
  by (induction a) (simp_all add: containsSub_Cons)

lemma no_triple_two: "\<not> containsSub [CHR 0x0A, CHR 0x0A, CHR 0x0A] [CHR 0x0A, CHR 0x0A]"
  by (simp add: containsSub_def suffixes.simps)

lemma no_triple_split:
  assumes "c \<noteq> CHR 0x0A"
  shows "containsSub [CHR 0x0A, CHR 0x0A, CHR 0x0A] (x @ c # y)
     \<longleftrightarrow> containsSub [CHR 0x0A, CHR 0x0A, CHR 0x0A] x \<or> containsSub [CHR 0x0A, CHR 0x0A, CHR 0x0A] y"
proof (induction x)
  case Nil
  from assms show ?case by (simp add: containsSub_Cons containsSub_def)
next
  case (Cons a x)
  have "prefix [CHR 0x0A, CHR 0x0A, CHR 0x0A] (a # x @ c # y)
      \<longleftrightarrow> prefix [CHR 0x0A, CHR 0x0A, CHR 0x0A] (a # x)"
    using assms by (cases x; cases "tl x") auto
  with Cons show ?case by (auto simp: containsSub_Cons)
qed

text \<open>
  Whitespace of the form that \<open>process\<close> builds, written out: spaces followed by nothing
  or two newlines, and spaces followed by newlines.
\<close>

lemma all_same_replicate: "\<forall>y \<in> set xs. y = x \<Longrightarrow> xs = replicate (length xs) x"
  by (induction xs) auto

lemma spaces_then_rest:
  "s = replicate (length (takeWhile (\<lambda>x. x = CHR '' '') s)) CHR '' ''
         @ dropWhile (\<lambda>x. x = CHR '' '') s"
proof -
  have "\<forall>y \<in> set (takeWhile (\<lambda>x. x = CHR '' '') s). y = CHR '' ''"
    by (metis (mono_tags, lifting) set_takeWhileD)
  from all_same_replicate [OF this] show ?thesis
    by (metis takeWhile_dropWhile_id)
qed

lemma leadingShape_form:
  assumes "leadingShape l"
  obtains a where "l = replicate a CHR '' ''" | a where "l = replicate a CHR '' '' @ [CHR 0x0A, CHR 0x0A]"
  using assms spaces_then_rest [of l] unfolding leadingShape_def Let_def
  by (metis append_Nil2)

lemma trailingShape_form:
  assumes "trailingShape t"
  obtains b m where "t = replicate b CHR '' '' @ replicate m CHR 0x0A"
proof -
  from assms have "\<forall>y \<in> set (dropWhile (\<lambda>x. x = CHR '' '') t). y = CHR 0x0A"
    by (simp add: trailingShape_def list_all_iff)
  from all_same_replicate [OF this] spaces_then_rest [of t] that show ?thesis by metis
qed

text \<open>
  A string that ends in a run of newlines and has no three newlines in a row before that
  run has none after the collapse.
\<close>

lemma collapse_last_run:
  assumes "\<not> containsSub [CHR 0x0A, CHR 0x0A, CHR 0x0A] (u @ [CHR 0x0A, CHR 0x0A])"
  shows "\<not> containsSub [CHR 0x0A, CHR 0x0A, CHR 0x0A] (collapseNewlines (u @ replicate k CHR 0x0A))"
proof (cases "3 \<le> k")
  case True
  from collapseNewlines_first_run [OF True assms, of "[]"] assms show ?thesis by simp
next
  case False
  then have "[CHR 0x0A, CHR 0x0A] = replicate k CHR 0x0A @ replicate (2 - k) CHR 0x0A"
    by (simp add: replicate_add [symmetric] numeral_2_eq_2 del: replicate_add)
  then have "u @ [CHR 0x0A, CHR 0x0A] = (u @ replicate k CHR 0x0A) @ replicate (2 - k) CHR 0x0A"
    by simp
  with assms have no: "\<not> containsSub [CHR 0x0A, CHR 0x0A, CHR 0x0A] (u @ replicate k CHR 0x0A)"
    using containsSub_append_right by metis
  then show ?thesis by (simp add: collapseNewlines_id)
qed

lemma separator_no_triple:
  assumes "leadingShape l" "trailingShape t"
  shows "\<not> containsSub [CHR 0x0A, CHR 0x0A, CHR 0x0A] (collapseNewlines (l @ t))"
proof -
  let ?nl3 = "[CHR 0x0A, CHR 0x0A, CHR 0x0A]"
  from assms(2) obtain b m where t: "t = replicate b CHR '' '' @ replicate m CHR 0x0A"
    by (rule trailingShape_form)
  from assms(1) show ?thesis
  proof (cases rule: leadingShape_form)
    case (1 a)
    have "\<not> containsSub ?nl3 ((replicate a CHR '' '' @ replicate b CHR '' '') @ [CHR 0x0A, CHR 0x0A])"
      using no_triple_two by (simp add: no_triple_spaces)
    from collapse_last_run [OF this, of m] show ?thesis by (simp add: 1 t)
  next
    case (2 a)
    show ?thesis
    proof (cases b)
      case 0
      have "\<not> containsSub ?nl3 (replicate a CHR '' '' @ [CHR 0x0A, CHR 0x0A])"
        using no_triple_two by (simp add: no_triple_spaces)
      from collapse_last_run [OF this, of "m + 2"] show ?thesis
        by (simp add: 2 t 0 replicate_add [symmetric] del: replicate_add)
    next
      case (Suc b')
      have "\<not> containsSub ?nl3 ([CHR 0x0A, CHR 0x0A] @ CHR '' '' # (replicate b' CHR '' '' @ [CHR 0x0A, CHR 0x0A]))"
        using no_triple_two by (subst no_triple_split) (simp_all add: no_triple_spaces)
      then have "\<not> containsSub ?nl3
          ((replicate a CHR '' '' @ [CHR 0x0A, CHR 0x0A] @ replicate b CHR '' '') @ [CHR 0x0A, CHR 0x0A])"
        by (simp add: no_triple_spaces Suc)
      from collapse_last_run [OF this, of m] show ?thesis by (simp add: 2 t)
    qed
  qed
qed

lemma collapseEveryRun_spec_id:
  "\<not> containsSub [CHR 0x0A, CHR 0x0A, CHR 0x0A] s \<Longrightarrow> collapseEveryRun_spec s = s"
  by (induction s) (auto simp: containsSub_Cons)

lemma collapse_once_is_all:
  "\<not> containsSub [CHR 0x0A, CHR 0x0A, CHR 0x0A] (collapseNewlines s)
     \<Longrightarrow> collapseEveryRun_spec s = collapseNewlines s"
proof (induction s)
  case Nil
  then show ?case by simp
next
  case (Cons c cs)
  show ?case
  proof (cases "prefix [CHR 0x0A, CHR 0x0A, CHR 0x0A] (c # cs)")
    case True
    let ?r = "dropWhile (\<lambda>x. x = CHR 0x0A) cs"
    have once: "collapseNewlines (c # cs) = [CHR 0x0A, CHR 0x0A] @ ?r"
      using True by (simp only: collapseNewlines.simps if_True)
    have every: "collapseEveryRun_spec (c # cs) = [CHR 0x0A, CHR 0x0A] @ collapseEveryRun_spec ?r"
      using True by (simp only: collapseEveryRun_spec.simps if_True)
    from Cons.prems
    have "\<not> containsSub [CHR 0x0A, CHR 0x0A, CHR 0x0A] ([CHR 0x0A, CHR 0x0A] @ ?r)"
      unfolding once .
    then have "\<not> containsSub [CHR 0x0A, CHR 0x0A, CHR 0x0A] ?r"
      using containsSub_append_left by blast
    then have "collapseEveryRun_spec ?r = ?r" by (rule collapseEveryRun_spec_id)
    then show ?thesis by (simp only: once every)
  next
    case False
    have once: "collapseNewlines (c # cs) = c # collapseNewlines cs"
      using False by (simp only: collapseNewlines.simps if_False)
    have every: "collapseEveryRun_spec (c # cs) = c # collapseEveryRun_spec cs"
      using False by (simp only: collapseEveryRun_spec.simps if_False)
    from Cons.prems have "\<not> containsSub [CHR 0x0A, CHR 0x0A, CHR 0x0A] (c # collapseNewlines cs)"
      unfolding once .
    then have "\<not> containsSub [CHR 0x0A, CHR 0x0A, CHR 0x0A] (collapseNewlines cs)"
      unfolding containsSub_Cons by blast
    from Cons.IH [OF this] show ?thesis by (simp only: once every)
  qed
qed

text \<open>
  One round of \<^verbatim>\<open>process\<close> keeps the form: with children whose whitespace has the form and
  a converter whose trailing whitespace is absent or one newline (as in the whole table),
  the whitespace stored for the node has the form.
\<close>

lemma leadingShape_space: "leadingShape s \<Longrightarrow> leadingShape ('' '' @ s)"
  by (simp add: leadingShape_def)

lemma trailingShape_space: "trailingShape s \<Longrightarrow> trailingShape ('' '' @ s)"
  by (simp add: trailingShape_def)

lemma trailingShape_newline: "trailingShape s \<Longrightarrow> trailingShape (s @ [CHR 0x0A])"
  by (induction s) (auto simp: trailingShape_def)

lemma Converters_trailingWhitespace:
  "\<forall>c \<in> set Converters. trailingWhitespace c = None \<or> trailingWhitespace c = Some [CHR 0x0A]"
  by (simp add: Converters_def)

lemma flankingWhitespace_shape:
  assumes "flankingWhitespace isBlock cleanText previousSibling nextSibling n = Inr fw"
    and "\<forall>child \<in> set (childNodes n). leadingShape (leadingOf child) \<and> trailingShape (trailingOf child)"
  shows "leadingShape (fst fw) \<and> trailingShape (snd fw)"
proof -
  have empty: "leadingShape []" "trailingShape []"
    by (simp_all add: leadingShape_def trailingShape_def)
  have first: "leadingShape (case childNodes n of [] \<Rightarrow> [] | first # rest \<Rightarrow> leadingOf first)"
    using assms(2) empty by (cases "childNodes n") simp_all
  have last: "trailingShape (case childNodes n of [] \<Rightarrow> [] | first # rest \<Rightarrow> trailingOf (last (childNodes n)))"
  proof (cases "childNodes n")
    case Nil
    with empty show ?thesis by simp
  next
    case (Cons a list)
    then have "childNodes n \<noteq> []" by simp
    then have "last (childNodes n) \<in> set (childNodes n)" by (rule last_in_set)
    with assms(2) have "trailingShape (trailingOf (last (childNodes n)))" by blast
    with Cons show ?thesis by simp
  qed
  have l: "leadingShape ((if b then '' '' else [])
             @ (case childNodes n of [] \<Rightarrow> [] | first # rest \<Rightarrow> leadingOf first))" for b
    using first leadingShape_space [OF first] by (cases b) simp_all
  have t: "trailingShape ((if b then '' '' else [])
             @ (case childNodes n of [] \<Rightarrow> [] | first # rest \<Rightarrow> trailingOf (last (childNodes n))))" for b
    using last trailingShape_space [OF last] by (cases b) simp_all
  show ?thesis
  proof (cases "flankingSpaces isBlock cleanText previousSibling nextSibling n")
    case (Inl e)
    with assms(1) show ?thesis by (simp add: flankingWhitespace_def)
  next
    case (Inr spaces)
    with assms(1) have "fw = ((if fst spaces then '' '' else [])
                 @ (case childNodes n of [] \<Rightarrow> [] | first # rest \<Rightarrow> leadingOf first),
               (if snd spaces then '' '' else [])
                 @ (case childNodes n of [] \<Rightarrow> [] | first # rest \<Rightarrow> trailingOf (last (childNodes n))))"
      by (auto simp: flankingWhitespace_def)
    then have "fst fw = (if fst spaces then '' '' else [])
                 @ (case childNodes n of [] \<Rightarrow> [] | first # rest \<Rightarrow> leadingOf first)"
      and "snd fw = (if snd spaces then '' '' else [])
                 @ (case childNodes n of [] \<Rightarrow> [] | first # rest \<Rightarrow> trailingOf (last (childNodes n)))"
      by simp_all
    with l [of "fst spaces"] t [of "snd spaces"] show ?thesis by (simp only:)
  qed
qed

lemma processWhitespace_shape:
  assumes "processWhitespace isBlock cleanText previousSibling nextSibling n = Inr w"
    and "annotationOf n = Some a"
    and "trailingWhitespace (n_converter a) = None
         \<or> trailingWhitespace (n_converter a) = Some [CHR 0x0A]"
    and "\<forall>child \<in> set (childNodes n). leadingShape (leadingOf child) \<and> trailingShape (trailingOf child)"
  shows "leadingShape (fst w) \<and> trailingShape (snd w)"
proof -
  define converter where "converter = n_converter a"
  note run = assms(1) [unfolded processWhitespace_def assms(2) option.case Let_def,
      folded converter_def]
  note tw = assms(3) [folded converter_def]
  have empty: "leadingShape []" "trailingShape []" "leadingShape [CHR 0x0A, CHR 0x0A]"
    "trailingShape [CHR 0x0A, CHR 0x0A]"
    by (simp_all add: leadingShape_def trailingShape_def)
  show ?thesis
  proof (cases "surroundingBlankLines converter = Some True")
    case True
    with run have "w = (if elementTag n = Some ''li'' then [] else [CHR 0x0A, CHR 0x0A], [CHR 0x0A, CHR 0x0A])"
      by (auto split: sum.splits)
    with empty show ?thesis by simp
  next
    case False
    show ?thesis
    proof (cases "flankingWhitespace isBlock cleanText previousSibling nextSibling n")
      case (Inl e)
      with run False show ?thesis
        by (simp split: sum.splits)
    next
      case (Inr fw)
      with run False
      have w: "w = (if elementTag n = Some ''li'' then [] else fst fw,
                    snd fw @ (case trailingWhitespace converter of None \<Rightarrow> [] | Some t \<Rightarrow> t))"
        by (auto split: sum.splits)
      from flankingWhitespace_shape [OF Inr assms(4)]
      have fw: "leadingShape (fst fw)" "trailingShape (snd fw)" by simp_all
      from fw(2) tw trailingShape_newline [OF fw(2)]
      have "trailingShape (snd fw @ (case trailingWhitespace converter of None \<Rightarrow> [] | Some t \<Rightarrow> t))"
        by auto
      with fw(1) empty(1) show ?thesis by (simp add: w)
    qed
  qed
qed

text \<open>
  The converter that \<^verbatim>\<open>process\<close> reads from the node is the one rule resolution has given
  it, a rule of the table: the whitespace stored for a node has the form whenever that of
  its children has.
\<close>

lemma findIn_member: "findIn cs p n = Inr (Some c) \<Longrightarrow> c \<in> set cs"
proof (induction cs)
  case Nil
  then show ?case by simp
next
  case (Cons a cs)
  then show ?case
    by (cases "canConvert p n (cfilter a)") (auto split: bool.splits if_splits)
qed

lemma resolved_whitespace_shape:
  assumes "annotationOf n = Some a"
    and "findConverter parentNode n = Inr (Some (n_converter a))"
    and "processWhitespace isBlock cleanText previousSibling nextSibling n = Inr w"
    and "\<forall>child \<in> set (childNodes n). leadingShape (leadingOf child) \<and> trailingShape (trailingOf child)"
  shows "leadingShape (fst w) \<and> trailingShape (snd w)"
proof -
  from assms(2) have "n_converter a \<in> set Converters"
    unfolding findConverter_def by (rule findIn_member)
  with Converters_trailingWhitespace
  have "trailingWhitespace (n_converter a) = None
        \<or> trailingWhitespace (n_converter a) = Some [CHR 0x0A]"
    by blast
  from processWhitespace_shape [OF assms(3) assms(1) this assms(4)] show ?thesis .
qed

text \<open>A node that \<^verbatim>\<open>process\<close> has not annotated has empty whitespace, which has the form.\<close>

lemma unannotated_shape:
  "annotationOf n = None \<Longrightarrow> leadingShape (leadingOf n) \<and> trailingShape (trailingOf n)"
  by (simp add: leadingOf_def trailingOf_def leadingShape_def trailingShape_def)

subsection \<open>The separator\<close>

text \<open>
  Claim C9, with the order of the code. Between two adjacent siblings the inserted
  separator is the leading whitespace of the current child followed by the trailing
  whitespace of the previous sibling, collapsed by \<^verbatim>\<open>replace(/\n{3,}/, '\n\n')\<close>. Every round
  of the loop appends the separator and the text of the child (a \<open>br\<close> trims the content
  before it and the text after it); for children without a \<open>br\<close> the content of the parent
  is the texts joined by the separators. For whitespace of the form that \<open>process\<close> stores
  (lemmas \<open>resolved_whitespace_shape\<close> and \<open>unannotated_shape\<close>) the collapse replaces every
  run of three or more newlines by two newlines: no three newlines in a row are left.
\<close>

theorem getContent_separator:
  "separator prev child = collapseNewlines (leadingOf child @ trailingOf prev)
   \<and> (getChildText ct child = Inr t \<longrightarrow>
        getContentStep ct (content, Some prev) child =
          Inr ((if isBr child then trimRight content else content)
                 @ separator prev child
                 @ (if isBr prev then trimLeft t else t), Some child))
   \<and> ((\<forall>c \<in> set cs. \<not> isBr c) \<and> map (getChildText ct) cs = map Inr ts \<longrightarrow>
        getContent ct (Element e cs) = Inr (assembled None (zip cs ts))
        \<and> getContent ct (DocumentFragment cs) = Inr (assembled None (zip cs ts)))
   \<and> (leadingShape (leadingOf child) \<and> trailingShape (trailingOf prev) \<longrightarrow>
        separator prev child = collapseEveryRun_spec (leadingOf child @ trailingOf prev)
        \<and> \<not> containsSub [CHR 0x0A, CHR 0x0A, CHR 0x0A] (separator prev child))"
proof -
  have "getContent ct (Element e cs) = Inr (assembled None (zip cs ts))
        \<and> getContent ct (DocumentFragment cs) = Inr (assembled None (zip cs ts))"
    if "\<forall>c \<in> set cs. \<not> isBr c" "map (getChildText ct) cs = map Inr ts"
    using getContentLoop_assembled [OF that(1) _ that(2), of None "[]"]
    by (simp add: getContent_def)
  moreover have "getContentStep ct (content, Some prev) child =
          Inr ((if isBr child then trimRight content else content)
                 @ separator prev child
                 @ (if isBr prev then trimLeft t else t), Some child)"
    if "getChildText ct child = Inr t"
    using that by (simp add: getContentStep_def Let_def)
  moreover have "separator prev child = collapseEveryRun_spec (leadingOf child @ trailingOf prev)
        \<and> \<not> containsSub [CHR 0x0A, CHR 0x0A, CHR 0x0A] (separator prev child)"
    if "leadingShape (leadingOf child)" "trailingShape (trailingOf prev)"
    using separator_no_triple [OF that] collapse_once_is_all [of "leadingOf child @ trailingOf prev"]
    by (simp add: separator_def)
  moreover have "separator prev child = collapseNewlines (leadingOf child @ trailingOf prev)"
    by (simp add: separator_def)
  ultimately show ?thesis
    by blast
qed

text \<open>Two list items: the three newlines after the first item become two.\<close>

theorem getContent_separator_witness:
  "leadingShape (leadingOf (siblings ! 1)) \<and> trailingShape (trailingOf (siblings ! 0))
   \<and> separator (siblings ! 0) (siblings ! 1) = [CHR 0x0A, CHR 0x0A]
   \<and> getContent id (DocumentFragment siblings) = Inr (''- a'' @ [CHR 0x0A, CHR 0x0A] @ ''- b'')"
proof -
  have br: "\<forall>c \<in> set siblings. \<not> isBr c"
    by (simp add: siblings_def annotated_def isBr_def)
  have texts: "map (getChildText id) siblings = map Inr [''- a'', ''- b'']"
    by (simp add: siblings_def annotated_def getChildText_def)
  have shape: "leadingShape (leadingOf (siblings ! 1))" "trailingShape (trailingOf (siblings ! 0))"
    by (simp_all add: siblings_def annotated_def leadingOf_def trailingOf_def leadingShape_def
        trailingShape_def)
  from getContent_separator [where cs = siblings and ts = "[''- a'', ''- b'']" and ct = id
      and prev = "siblings ! 0" and child = "siblings ! 1"]
    br texts shape
  have "getContent id (DocumentFragment siblings) = Inr (assembled None (zip siblings [''- a'', ''- b'']))"
    and "separator (siblings ! 0) (siblings ! 1)
           = collapseEveryRun_spec (leadingOf (siblings ! 1) @ trailingOf (siblings ! 0))"
    by blast+
  with shape show ?thesis
    by (simp add: siblings_def annotated_def leadingOf_def trailingOf_def separator_def)
qed

text \<open>
  Claim C9 as stated puts the trailing whitespace of the previous sibling first. After a
  paragraph (trailing blank line) an emphasis with a leading space gives the space before
  the blank line, not after it.
\<close>

theorem separator_order_counterexample:
  "getContent id (DocumentFragment
      [annotated ''p'' ''a'' ([CHR 0x0A, CHR 0x0A], [CHR 0x0A, CHR 0x0A]),
       annotated ''em'' ''_x_'' ('' '', [])])
     = Inr (''a'' @ '' '' @ [CHR 0x0A, CHR 0x0A] @ ''_x_'')
   \<and> getContent id (DocumentFragment
      [annotated ''p'' ''a'' ([CHR 0x0A, CHR 0x0A], [CHR 0x0A, CHR 0x0A]),
       annotated ''em'' ''_x_'' ('' '', [])])
     \<noteq> Inr (''a'' @ [CHR 0x0A, CHR 0x0A] @ '' '' @ ''_x_'')"
  by (simp add: getContent_def getContentStep_def getChildText_def separator_def leadingOf_def
      trailingOf_def annotated_def isBr_def Let_def)

section \<open>Properties of the table formatter\<close>

lemma mergeRows_append:
  "mergeRows (xs @ ys) st = (case mergeRows xs st of Inl e \<Rightarrow> Inl e | Inr st' \<Rightarrow> mergeRows ys st')"
  by (induction xs arbitrary: st) (auto split: sum.splits)

lemma scanChildren_mergeRows:
  "scanChildren cs (alignments, rows, inqueue) =
     (case mergeRows (filter isRow cs) (alignments, rows) of
        Inl e \<Rightarrow> Inl e
      | Inr st \<Rightarrow> Inr (fst st, snd st, inqueue @ queued cs))"
proof (induction cs arbitrary: alignments rows inqueue)
  case Nil
  then show ?case by (simp add: queued_def)
next
  case (Cons child cs)
  show ?case
  proof (cases "elementTag child = Some ''tr''")
    case True
    then show ?thesis
      using Cons.IH by (simp add: isRow_def queued_def split: sum.splits cong: sum.case_cong)
  next
    case False
    then show ?thesis
      using Cons.IH
      by (cases "isElement child") (simp_all add: isRow_def queued_def cong: sum.case_cong)
  qed
qed

lemma extractRowsLoop_mergeRows:
  "extractRowsLoop alignments rows inqueue = mergeRows (tableRows inqueue) (alignments, rows)"
proof (induction alignments rows inqueue rule: extractRowsLoop.induct)
  case (1 alignments rows)
  then show ?case by simp
next
  case (2 alignments rows elem inqueue)
  show ?case
  proof (cases "isParentNode elem")
    case True
    show ?thesis
    proof (cases "mergeRows (filter isRow (childNodes elem)) (alignments, rows)")
      case (Inl e)
      with True show ?thesis
        by (simp add: scanChildren_mergeRows mergeRows_append)
    next
      case (Inr st)
      then have s: "scanChildren (childNodes elem) (alignments, rows, inqueue)
          = Inr (fst st, snd st, inqueue @ queued (childNodes elem))"
        by (simp add: scanChildren_mergeRows)
      from "2.IH"(1) [OF True s] True s Inr show ?thesis
        by (simp add: mergeRows_append)
    qed
  next
    case False
    then have "childNodes elem = []" by (cases elem) simp_all
    with False "2.IH"(2) show ?thesis by (simp add: queued_def)
  qed
qed

lemma extractColumnsFrom_alignments:
  "extractColumnsFrom cs = Inr r \<Longrightarrow> snd r = map getCellAlignment (filter isCell cs)"
  by (induction cs arbitrary: r) (auto split: if_splits sum.splits)

lemma extractColumns_alignments:
  "extractColumns row = Inr r \<Longrightarrow> snd r = rowAlignments row"
proof (cases "isParentNode row")
  case True
  assume "extractColumns row = Inr r"
  with True show ?thesis
    by (simp add: extractColumns_def rowAlignments_def extractColumnsFrom_alignments)
next
  case False
  assume "extractColumns row = Inr r"
  moreover from False have "childNodes row = []" by (cases row) simp_all
  ultimately show ?thesis using False by (auto simp: extractColumns_def rowAlignments_def)
qed

lemma mergeAlignments_success:
  assumes "mergeAlignments i r als = Inr als'" "i \<le> length als"
  shows "als' = als @ drop (length als - i) r
         \<and> (\<forall>j < length r. i + j < length als \<longrightarrow> r ! j = als ! (i + j))"
  using assms
proof (induction r arbitrary: i als)
  case Nil
  then show ?case by simp
next
  case (Cons a rest)
  show ?case
  proof (cases "i < length als")
    case True
    with Cons.prems(1) have a: "a = als ! i" and rec: "mergeAlignments (i + 1) rest als = Inr als'"
      by (auto simp: Let_def split: if_splits)
    from Cons.IH [OF rec] True have IH: "als' = als @ drop (length als - (i + 1)) rest"
      "\<forall>j < length rest. i + 1 + j < length als \<longrightarrow> rest ! j = als ! (i + 1 + j)"
      by simp_all
    from True obtain d where d: "length als - i = Suc d" by (metis Suc_diff_Suc)
    then have "length als - (i + 1) = d" by simp
    with IH(1) d have "als' = als @ drop (length als - i) (a # rest)" by simp
    moreover have "(a # rest) ! j = als ! (i + j)"
      if "j < length (a # rest)" "i + j < length als" for j
    proof (cases j)
      case 0
      with a show ?thesis by simp
    next
      case (Suc k)
      with that IH(2) show ?thesis by simp
    qed
    ultimately show ?thesis by blast
  next
    case False
    with Cons.prems(2) have i: "i = length als" by simp
    with Cons.prems(1) have rec: "mergeAlignments (i + 1) rest (als @ [a]) = Inr als'"
      by (auto simp: Let_def nth_append split: if_splits)
    from Cons.IH [OF rec] i have "als' = (als @ [a]) @ drop 0 rest" by simp
    with i show ?thesis by simp
  qed
qed

lemma mergeAlignments_length:
  assumes "mergeAlignments 0 r als = Inr als'"
  shows "length als' = max (length als) (length r)"
  using mergeAlignments_success [OF assms] by auto

lemma mergeAlignments_agree:
  assumes "mergeAlignments 0 r als = Inr als'" "j < length r"
  shows "j < length als' \<and> r ! j = als' ! j"
proof -
  from mergeAlignments_success [OF assms(1)] have
    eq: "als' = als @ drop (length als) r"
    and old: "\<forall>j < length r. j < length als \<longrightarrow> r ! j = als ! j"
    by simp_all
  show ?thesis
  proof (cases "j < length als")
    case True
    with old assms(2) eq show ?thesis by (simp add: nth_append)
  next
    case False
    with assms(2) eq show ?thesis by (simp add: nth_append)
  qed
qed

text \<open>
  After the rows \<open>rs\<close> have been merged into the alignments: the old alignments are a
  prefix of the new ones, every cell of every row has the alignment of its column, and every
  new column comes from a row.
\<close>

lemma mergeRows_invariant:
  assumes "mergeRows rs (als, rows) = Inr (als', rows')"
  shows "take (length als) als' = als \<and> length als \<le> length als'
         \<and> (\<forall>row \<in> set rs. \<forall>j < length (rowAlignments row).
               j < length als' \<and> rowAlignments row ! j = als' ! j)
         \<and> (\<forall>j. length als \<le> j \<and> j < length als' \<longrightarrow>
               (\<exists>row \<in> set rs. j < length (rowAlignments row)))"
  using assms
proof (induction rs arbitrary: als rows)
  case Nil
  then show ?case by simp
next
  case (Cons row rs)
  from Cons.prems obtain r als1 where r: "extractColumns row = Inr r"
    and m: "mergeAlignments 0 (snd r) als = Inr als1"
    and rest: "mergeRows rs (als1, rows @ [fst r]) = Inr (als', rows')"
    by (auto split: sum.splits)
  have ra: "snd r = rowAlignments row" using r by (rule extractColumns_alignments)
  from mergeAlignments_success [OF m] have als1: "als1 = als @ drop (length als) (rowAlignments row)"
    by (simp add: ra)
  from Cons.IH [OF rest] have IH: "take (length als1) als' = als1" "length als1 \<le> length als'"
    "\<forall>row \<in> set rs. \<forall>j < length (rowAlignments row).
        j < length als' \<and> rowAlignments row ! j = als' ! j"
    "\<forall>j. length als1 \<le> j \<and> j < length als' \<longrightarrow> (\<exists>row \<in> set rs. j < length (rowAlignments row))"
    by blast+
  have pre: "als' ! j = als1 ! j" if "j < length als1" for j
    using that IH(1) by (metis nth_take)
  have 1: "take (length als) als' = als"
  proof -
    have "take (length als) als' = take (length als) (take (length als1) als')"
      using als1 by (simp add: min_def)
    also have "\<dots> = take (length als) als1" using IH(1) by simp
    also have "\<dots> = als" using als1 by simp
    finally show ?thesis .
  qed
  have 2: "length als \<le> length als'" using IH(2) als1 by simp
  have 3: "j < length als' \<and> rowAlignments row ! j = als' ! j"
    if "j < length (rowAlignments row)" for j
  proof -
    from mergeAlignments_agree [OF m] that ra
    have "j < length als1" "rowAlignments row ! j = als1 ! j" by simp_all
    with pre [of j] IH(2) show ?thesis by simp
  qed
  have 4: "\<exists>row' \<in> set (row # rs). j < length (rowAlignments row')"
    if "length als \<le> j" "j < length als'" for j
  proof (cases "j < length als1")
    case True
    with that(1) als1 have "j < length (rowAlignments row)" by simp
    then show ?thesis by simp
  next
    case False
    with that(2) IH(4) show ?thesis by simp
  qed
  from 1 2 3 4 IH(3) show ?case by simp
qed

lemma dropTrailingNulls_take:
  "\<exists>m \<le> length als. dropTrailingNulls n als = take m als
      \<and> (\<forall>j. m \<le> j \<and> j < length als \<longrightarrow> als ! j = None)"
proof (induction n als rule: dropTrailingNulls.induct)
  case (1 n als)
  show ?case
  proof (cases "length als > n \<and> last als = None")
    case True
    then have ne: "als \<noteq> []" by auto
    from 1 [OF True] obtain m where m: "m \<le> length (butlast als)"
      "dropTrailingNulls n (butlast als) = take m (butlast als)"
      "\<forall>j. m \<le> j \<and> j < length (butlast als) \<longrightarrow> butlast als ! j = None"
      by blast
    have "m \<le> length als - 1" using m(1) by simp
    then have "take m (take (length als - 1) als) = take m als" by (simp add: min_def)
    then have tb: "take m (butlast als) = take m als" by (simp only: butlast_conv_take)
    have "dropTrailingNulls n als = dropTrailingNulls n (butlast als)"
      using True by (subst dropTrailingNulls.simps) simp
    with m(2) tb have "dropTrailingNulls n als = take m als" by simp
    moreover have "als ! j = None" if "m \<le> j" "j < length als" for j
    proof (cases "j < length (butlast als)")
      case True
      with m(3) that(1) show ?thesis by (simp add: nth_butlast)
    next
      case False
      with that(2) have "j = length als - 1" by simp
      with True ne show ?thesis by (simp add: last_conv_nth)
    qed
    moreover have "m \<le> length als" using m(1) by simp
    ultimately show ?thesis by blast
  next
    case False
    then have "dropTrailingNulls n als = take (length als) als"
      by (subst dropTrailingNulls.simps) auto
    then show ?thesis by auto
  qed
qed

lemma columnAlignment_agree:
  assumes "\<forall>row \<in> set rs. \<forall>j < length (rowAlignments row). rowAlignments row ! j = als ! j"
    and "\<exists>row \<in> set rs. j < length (rowAlignments row)"
  shows "columnAlignment rs j = als ! j"
proof -
  from assms(2) obtain row where "find (\<lambda>row. j < length (rowAlignments row)) rs = Some row"
    by (cases "find (\<lambda>row. j < length (rowAlignments row)) rs") (auto simp: find_None_iff)
  moreover from this have "row \<in> set rs" "j < length (rowAlignments row)"
    by (auto simp: find_Some_iff)
  ultimately show ?thesis using assms(1) by (simp add: columnAlignment_def)
qed

text \<open>
  Claim C8. When \<open>extractRows\<close> returns, the alignment of every column is the alignment of
  the first row that has a cell in that column, and every cell of every row has the
  alignment of its column (the columns dropped from the end have no alignment). When two
  rows have cells with different alignments in the same column, \<open>extractRows\<close> returns an
  error and no rows.
\<close>

theorem extractRows_alignment:
  "(extractRows n = Inr (alignments, rows) \<longrightarrow>
      (\<forall>j < length alignments. alignments ! j = columnAlignment (tableRows [n]) j)
      \<and> (\<forall>row \<in> set (tableRows [n]). \<forall>j < length (rowAlignments row).
            rowAlignments row ! j = (if j < length alignments then alignments ! j else None)))
   \<and> ((\<exists>row1 \<in> set (tableRows [n]). \<exists>row2 \<in> set (tableRows [n]). \<exists>j.
          j < length (rowAlignments row1) \<and> j < length (rowAlignments row2)
          \<and> rowAlignments row1 ! j \<noteq> rowAlignments row2 ! j)
       \<longrightarrow> (\<exists>e. extractRows n = Inl e))"
proof -
  let ?rs = "tableRows [n]"
  have consistent: "(\<forall>j < length (dropTrailingNulls h F).
            dropTrailingNulls h F ! j = columnAlignment ?rs j)
      \<and> (\<forall>row \<in> set ?rs. \<forall>j < length (rowAlignments row).
            rowAlignments row ! j = (if j < length (dropTrailingNulls h F)
                                      then dropTrailingNulls h F ! j else None))
      \<and> (\<forall>row1 \<in> set ?rs. \<forall>row2 \<in> set ?rs. \<forall>j.
            j < length (rowAlignments row1) \<and> j < length (rowAlignments row2)
            \<longrightarrow> rowAlignments row1 ! j = rowAlignments row2 ! j)"
    if loop: "extractRowsLoop [] [] [n] = Inr (F, rows)" for F rows h
  proof -
    from loop have "mergeRows ?rs ([], []) = Inr (F, rows)"
      by (simp add: extractRowsLoop_mergeRows)
    from mergeRows_invariant [OF this] have
      agree: "\<forall>row \<in> set ?rs. \<forall>j < length (rowAlignments row).
                j < length F \<and> rowAlignments row ! j = F ! j"
      and covered: "\<forall>j. j < length F \<longrightarrow> (\<exists>row \<in> set ?rs. j < length (rowAlignments row))"
      by simp_all
    from dropTrailingNulls_take [of F h] obtain m where m: "m \<le> length F"
      "dropTrailingNulls h F = take m F" "\<forall>j. m \<le> j \<and> j < length F \<longrightarrow> F ! j = None"
      by blast
    have a: "dropTrailingNulls h F ! j = columnAlignment ?rs j"
      if "j < length (dropTrailingNulls h F)" for j
    proof -
      from that m have j: "j < m" "j < length F" by simp_all
      with covered have "\<exists>row \<in> set ?rs. j < length (rowAlignments row)" by simp
      with agree have "columnAlignment ?rs j = F ! j"
        by (intro columnAlignment_agree) simp_all
      with j m(2) show ?thesis by simp
    qed
    have b: "rowAlignments row ! j = (if j < length (dropTrailingNulls h F)
                                      then dropTrailingNulls h F ! j else None)"
      if "row \<in> set ?rs" "j < length (rowAlignments row)" for row j
    proof -
      from agree that have j: "j < length F" "rowAlignments row ! j = F ! j" by simp_all
      show ?thesis
      proof (cases "j < m")
        case True
        with j m show ?thesis by simp
      next
        case False
        with j m show ?thesis by simp
      qed
    qed
    have c: "rowAlignments row1 ! j = rowAlignments row2 ! j"
      if "row1 \<in> set ?rs" "row2 \<in> set ?rs" "j < length (rowAlignments row1)"
        "j < length (rowAlignments row2)" for row1 row2 j
      using agree that by simp
    from a b c show ?thesis by blast
  qed
  show ?thesis
  proof (cases "extractRowsLoop [] [] [n]")
    case (Inl e)
    then show ?thesis by (simp add: extractRows_def)
  next
    case (Inr r)
    obtain F rs where r: "r = (F, rs)" by (cases r)
    show ?thesis
    proof (cases rs)
      case Nil
      with Inr r show ?thesis by (simp add: extractRows_def)
    next
      case (Cons header rest)
      with Inr r have ex: "extractRows n = Inr (dropTrailingNulls (length header) F, rs)"
        by (simp add: extractRows_def)
      from consistent [of F rs "length header"] Inr r ex show ?thesis by auto
    qed
  qed
qed

lemma alignment_examples:
  "matchTextAlign ''text-align: right'' = Some AlignRight"
  "matchTextAlign ''text-align:right'' = Some AlignRight"
  "matchTextAlign ''text-align: left'' = Some AlignLeft"
  by (simp_all add: alignmentAt_def isWhitespace_def)

text \<open>A table with two right-aligned rows, and one whose second row is left-aligned.\<close>

theorem extractRows_alignment_witness:
  "extractRows goodTable = Inr ([Some AlignRight, None], [[''a'', ''b''], [''c'', ''d'']])
   \<and> columnAlignment (tableRows [goodTable]) 0 = Some AlignRight
   \<and> (\<exists>e. extractRows badTable = Inl e)"
proof -
  have good: "extractRows goodTable = Inr ([Some AlignRight, None], [[''a'', ''b''], [''c'', ''d'']])"
    by (simp add: extractRows_def goodTable_def plain_def cell_def extractColumns_def isCell_def
        isConverterNode_def replacementOf_def getCellAlignment_def getAttribute_def
        alignmentAt_def isWhitespace_def dropTrailingNulls.simps)
  have rows: "tableRows [badTable] =
      [plain ''tr'' [cell ''th'' ''text-align: right'' ''a''],
       plain ''tr'' [cell ''td'' ''text-align: left'' ''c'']]"
    by (simp add: badTable_def plain_def cell_def isRow_def queued_def)
  have conflict: "\<exists>row1 \<in> set (tableRows [badTable]). \<exists>row2 \<in> set (tableRows [badTable]). \<exists>j.
          j < length (rowAlignments row1) \<and> j < length (rowAlignments row2)
          \<and> rowAlignments row1 ! j \<noteq> rowAlignments row2 ! j"
    unfolding rows
    by (simp add: rowAlignments_def plain_def cell_def isCell_def isConverterNode_def
        getCellAlignment_def getAttribute_def alignmentAt_def isWhitespace_def)
  from extractRows_alignment [of goodTable "[Some AlignRight, None]" "[[''a'', ''b''], [''c'', ''d'']]"]
    good
  have "columnAlignment (tableRows [goodTable]) 0 = Some AlignRight" by fastforce
  moreover from extractRows_alignment [of badTable] conflict
  have "\<exists>e. extractRows badTable = Inl e" by blast
  ultimately show ?thesis using good by blast
qed

subsection \<open>Column widths and padding\<close>

lemma wcwidth_append: "wcwidth cw (a @ b) = wcwidth cw a + wcwidth cw b"
  by (simp add: wcwidth_def)

lemma wcwidth_spaces: "cw CHR '' '' = 1 \<Longrightarrow> wcwidth cw (replicate k CHR '' '') = int k"
  by (induction k) (simp_all add: wcwidth_def)

lemma widenBy_length: "length (widenBy cw ws row) = length ws"
  by (induction cw ws row rule: widenBy.induct) simp_all

lemma widenBy_nth:
  "i < length ws \<Longrightarrow>
     widenBy cw ws row ! i = (if i < length row then max (wcwidth cw (row ! i)) (ws ! i) else ws ! i)"
proof (induction cw ws row arbitrary: i rule: widenBy.induct)
  case (1 cw w ws column row)
  then show ?case by (cases i) simp_all
qed simp_all

text \<open>
  The widths after the rows have been folded in: at least the starting width and the
  display width of every cell of the column, and equal to one of them.
\<close>

lemma foldl_widenBy:
  assumes "i < length ws"
  shows "length (foldl (widenBy cw) ws rows) = length ws
     \<and> ws ! i \<le> foldl (widenBy cw) ws rows ! i
     \<and> (\<forall>r \<in> set rows. i < length r \<longrightarrow> wcwidth cw (r ! i) \<le> foldl (widenBy cw) ws rows ! i)
     \<and> (foldl (widenBy cw) ws rows ! i = ws ! i
          \<or> (\<exists>r \<in> set rows. i < length r \<and> foldl (widenBy cw) ws rows ! i = wcwidth cw (r ! i)))"
  using assms
proof (induction rows arbitrary: ws)
  case Nil
  then show ?case by simp
next
  case (Cons row rows)
  let ?ws = "widenBy cw ws row"
  let ?res = "foldl (widenBy cw) ?ws rows"
  have i: "i < length ?ws" using Cons.prems by (simp add: widenBy_length)
  from Cons.IH [OF i] have IH: "length ?res = length ?ws" "?ws ! i \<le> ?res ! i"
    "\<forall>r \<in> set rows. i < length r \<longrightarrow> wcwidth cw (r ! i) \<le> ?res ! i"
    "?res ! i = ?ws ! i \<or> (\<exists>r \<in> set rows. i < length r \<and> ?res ! i = wcwidth cw (r ! i))"
    by blast+
  note step = widenBy_nth [OF Cons.prems, of cw row]
  have 1: "length (foldl (widenBy cw) ws (row # rows)) = length ws"
    using IH(1) by (simp add: widenBy_length)
  have 2: "ws ! i \<le> foldl (widenBy cw) ws (row # rows) ! i"
    using IH(2) step by (simp split: if_splits)
  have 3: "\<forall>r \<in> set (row # rows). i < length r \<longrightarrow>
      wcwidth cw (r ! i) \<le> foldl (widenBy cw) ws (row # rows) ! i"
    using IH(2,3) step by (auto split: if_splits)
  have 4: "foldl (widenBy cw) ws (row # rows) ! i = ws ! i
      \<or> (\<exists>r \<in> set (row # rows). i < length r
            \<and> foldl (widenBy cw) ws (row # rows) ! i = wcwidth cw (r ! i))"
  proof (cases "?res ! i = ?ws ! i")
    case True
    then show ?thesis using step by (auto simp: max_def split: if_splits)
  next
    case False
    with IH(4) show ?thesis by auto
  qed
  from 1 2 3 4 show ?case by blast
qed

lemma getColumnWidths_max:
  assumes "i < length header"
  shows "\<exists>ws. getColumnWidths cw (header # rest) = Inr ws \<and> length ws = length header
     \<and> int (length (header ! i)) \<le> ws ! i
     \<and> (\<forall>r \<in> set (header # rest). i < length r \<longrightarrow> wcwidth cw (r ! i) \<le> ws ! i)
     \<and> (ws ! i = int (length (header ! i))
          \<or> (\<exists>r \<in> set (header # rest). i < length r \<and> ws ! i = wcwidth cw (r ! i)))"
proof -
  let ?ws0 = "map (\<lambda>cell. int (length cell)) header"
  have "i < length ?ws0" using assms by simp
  from foldl_widenBy [OF this, of cw "header # rest"] assms show ?thesis
    by (simp add: getColumnWidths_def)
qed

text \<open>
  Left (and default) and right alignment pad a cell to the width of its column, measured
  in display width.
\<close>

lemma formatCell_left_right:
  assumes "cw CHR '' '' = 1" "wcwidth cw column \<le> width"
  shows "formatCell cw (Some AlignLeft) (Some width) column
           = Inr (column @ replicate (nat (width - wcwidth cw column)) CHR '' '')"
    and "formatCell cw None (Some width) column
           = Inr (column @ replicate (nat (width - wcwidth cw column)) CHR '' '')"
    and "formatCell cw (Some AlignRight) (Some width) column
           = Inr (replicate (nat (width - wcwidth cw column)) CHR '' '' @ column)"
    and "wcwidth cw (column @ replicate (nat (width - wcwidth cw column)) CHR '' '') = width"
    and "wcwidth cw (replicate (nat (width - wcwidth cw column)) CHR '' '' @ column) = width"
  using assms by (simp_all add: formatCell_def pad_def repeat_def wcwidth_append wcwidth_spaces)

text \<open>
  A cell past the end of the column widths: right alignment fails, the other alignments
  leave the cell as it is.
\<close>

lemma formatCell_past_end:
  "formatCell cw (Some AlignRight) None column = Inl UndefinedToString"
  "formatCell cw (Some AlignCenter) None column = Inr column"
  "formatCell cw (Some AlignLeft) None column = Inr column"
  "formatCell cw None None column = Inr column"
  by (simp_all add: formatCell_def pad_def repeat_def)

text \<open>
  Center alignment does so for a cell whose display width is its length: the smaller half
  of the padding goes to the left.
\<close>

lemma formatCell_center_narrow:
  assumes "cw CHR '' '' = 1" "wcwidth cw column = int (length column)"
    and "int (length column) \<le> width"
  shows "formatCell cw (Some AlignCenter) (Some width) column
           = Inr (replicate (nat ((width - int (length column)) div 2)) CHR '' '' @ column
                  @ replicate (nat ((width - int (length column) + 1) div 2)) CHR '' '')"
proof -
  let ?ws = "width - int (length column)"
  let ?left = "replicate (nat (?ws div 2)) CHR '' '' @ column"
  have ws: "0 \<le> ?ws" "0 \<le> ?ws div 2" using assms(3) by simp_all
  have left: "pad cw True column (Some (?ws div 2 + int (length column))) CHR '' '' = Inr ?left"
    using assms(2) ws by (simp add: pad_def repeat_def)
  have wl: "wcwidth cw ?left = int (length ?left)"
    using assms(1,2) ws by (simp add: wcwidth_append wcwidth_spaces)
  have "pad cw False ?left (Some ((?ws + 1) div 2 + int (length ?left))) CHR '' ''
          = Inr (?left @ replicate (nat ((?ws + 1) div 2)) CHR '' '')"
    using ws unfolding pad_def repeat_def wl by simp
  with left show ?thesis by (simp add: formatCell_def Let_def)
qed

text \<open>
  For a cell with a wide character the center branch mixes the length and the display
  width: when the cell is the widest of its column the left padding is negative.
\<close>

lemma formatCell_center_wide:
  assumes "int (length column) < wcwidth cw column"
  shows "formatCell cw (Some AlignCenter) (Some (wcwidth cw column)) column = Inl InvalidCountValue"
proof -
  let ?k = "wcwidth cw column - int (length column)"
  have "?k div 2 + int (length column) - wcwidth cw column < 0" using assms by linarith
  then show ?thesis by (simp add: formatCell_def pad_def repeat_def Let_def)
qed

text \<open>
  Claim C7 at a cell with a wide character (the letter W stands for a character of display
  width 2). The column width is the display width 2; centering the cell asks for a
  negative number of spaces and fails, where left alignment gives the padded cell. In a
  column of width 6 the centered cell is padded to display width 5 only.
\<close>

theorem formatRow_center_wide_cell:
  "getColumnWidths wideW [[''W'']] = Inr [2]
   \<and> formatRow wideW [''W''] [Some AlignCenter] [2] = Inl InvalidCountValue
   \<and> formatRow wideW [''W''] [Some AlignLeft] [2] = Inr ''| W''
   \<and> getColumnWidths wideW [[''abcdef'', ''x''], [''W'', ''y'']] = Inr [6, 1]
   \<and> formatRow wideW [''W'', ''y''] [Some AlignCenter, None] [6, 1] = Inr '' W   | y''
   \<and> formatRow wideW [''W'', ''y''] [Some AlignLeft, None] [6, 1] = Inr ''W     | y''"
  by (simp add: getColumnWidths_def formatRow_def formatCell_def pad_def repeat_def wcwidth_def
      wideW_def nthOpt_def joinColumns_def trimRight_def isWhitespace_def Let_def
      eval_nat_numeral)

end
